theory Spec2Isabelle
  imports Main "HOL-Library.Word" "HOL-Library.Sublist"
begin

section \<open>Channels, message types and listener entries\<close>

text \<open>
  Modelled from the spec: the engine type \<open>FGameplayTag\<close> is not part of the repository.
  A channel is a hierarchical key of dot-separated segments, kept here as the list of its
  segments (\<open>A.B.C\<close> is \<open>[''A'', ''B'', ''C'']\<close>). The default-constructed tag
  \<open>FGameplayTag()\<close> is the empty list; it is the only tag that is not valid. The direct
  parent strips the last segment, and the parent of a one-segment tag is the empty tag.
\<close>

type_synonym FGameplayTag = "string list"

definition IsValid_Tag :: "FGameplayTag \<Rightarrow> bool" where
  "IsValid_Tag Tag = (Tag \<noteq> [])"

definition RequestDirectParent :: "FGameplayTag \<Rightarrow> FGameplayTag" where
  "RequestDirectParent Tag = butlast Tag"

text \<open>
  Modelled from the spec: the engine type \<open>UScriptStruct\<close> is not part of the repository.
  A struct type is its name together with its super struct, if it has one.
  \<open>IsChildOf\<close> walks the chain of super structs and answers whether the given base is met
  on the way, the struct itself included; a null base is never met.
\<close>

datatype UScriptStruct = ScriptStruct string "UScriptStruct option"

fun IsChildOf :: "UScriptStruct \<Rightarrow> UScriptStruct option \<Rightarrow> bool" where
  "IsChildOf S None = False"
| "IsChildOf (ScriptStruct n None) (Some B) = (ScriptStruct n None = B)"
| "IsChildOf (ScriptStruct n (Some Super)) (Some B) =
     (ScriptStruct n (Some Super) = B \<or> IsChildOf Super (Some B))"

text \<open>
  A \<open>TWeakObjectPtr<const UScriptStruct>\<close> holds the struct it was assigned (or null) and is
  valid only while that struct is still alive. Which structs are alive is decided outside the
  subsystem (by the engine's garbage collector) and is a parameter \<open>alive\<close> of the model.
\<close>

definition Weak_IsValid :: "(UScriptStruct \<Rightarrow> bool) \<Rightarrow> UScriptStruct option \<Rightarrow> bool" where
  "Weak_IsValid alive p = (case p of None \<Rightarrow> False | Some S \<Rightarrow> alive S)"

definition Weak_Get :: "(UScriptStruct \<Rightarrow> bool) \<Rightarrow> UScriptStruct option \<Rightarrow> UScriptStruct option" where
  "Weak_Get alive p = (if Weak_IsValid alive p then p else None)"

datatype EDanzmannGameplayMessagesMatchCriteria = ExactMatch | PartialMatch

text \<open>The handle: a channel and an \<open>int32\<close> identifier, both defaulted (empty tag, 0).\<close>

record FDanzmannGameplayMessagesListenerHandle =
  Channel :: FGameplayTag
  Id :: "32 word"

definition DefaultHandle :: FDanzmannGameplayMessagesListenerHandle where
  "DefaultHandle = \<lparr>Channel = [], Id = 0\<rparr>"

definition IsValid :: "FDanzmannGameplayMessagesListenerHandle \<Rightarrow> bool" where
  "IsValid Handle = (Id Handle \<noteq> 0)"

text \<open>
  A callback is an opaque \<open>TFunction\<close> in the source. What matters to the router is which
  of its operations the callback calls while it runs, so a callback is modelled as the
  sequence of router calls its body makes: registrations (each with the callback of the new
  listener) and unregistrations. A callback that broadcasts in turn is not modelled. The
  payload is an untyped pointer, kept as a number.
\<close>

datatype router_call =
    CallRegisterListener FGameplayTag "router_call list" "UScriptStruct option"
      EDanzmannGameplayMessagesMatchCriteria
  | CallUnregisterListener FDanzmannGameplayMessagesListenerHandle

type_synonym callback = "router_call list"
type_synonym payload = nat

record FDanzmannGameplayMessagesListenerData =
  HandleId :: "32 word"
  Callback :: callback
  GameplayMessageStructType :: "UScriptStruct option"
  bHasValidType :: bool
  MatchCriteria :: EDanzmannGameplayMessagesMatchCriteria

definition DefaultListenerData :: FDanzmannGameplayMessagesListenerData where
  "DefaultListenerData =
     \<lparr>HandleId = 0, Callback = [], GameplayMessageStructType = None,
      bHasValidType = False, MatchCriteria = ExactMatch\<rparr>"

record FDanzmannChannelListenerList =
  Listeners :: "FDanzmannGameplayMessagesListenerData list"
  AvailableHandleId :: "32 word"

definition DefaultChannelListenerList :: FDanzmannChannelListenerList where
  "DefaultChannelListenerList = \<lparr>Listeners = [], AvailableHandleId = 0\<rparr>"

text \<open>The subsystem's only state is \<open>ListenerMap\<close>, a map from channels to their lists.\<close>

type_synonym listener_map = "FGameplayTag \<rightharpoonup> FDanzmannChannelListenerList"

text \<open>
  What a run of an operation lets the outside observe: the callbacks it invokes (with the
  channel level and the entry the callback belongs to, and the three arguments passed) and
  the warnings and errors it logs. \<open>HandleIdOverflow\<close> marks a registration made by a
  callback whose \<open>++AvailableHandleId\<close> overflows \<open>int32\<close>, which is undefined behaviour in
  the source; the model wraps around there and records that it happened.
\<close>

datatype log_event =
    CallbackInvoked FGameplayTag FDanzmannGameplayMessagesListenerData
      FGameplayTag UScriptStruct payload
  | WarningStructTypeGoneInvalid FGameplayTag
  | ErrorStructTypeMismatch FGameplayTag UScriptStruct FGameplayTag "UScriptStruct option"
  | WarningInvalidHandle
  | HandleIdOverflow FGameplayTag

section \<open>Registration and unregistration\<close>

text \<open>\<open>TMap::FindOrAdd\<close>: the list of the channel, a default one being added if absent.\<close>

definition FindOrAdd :: "FGameplayTag \<Rightarrow> listener_map \<Rightarrow> listener_map" where
  "FindOrAdd Tag m = (case m Tag of None \<Rightarrow> m(Tag \<mapsto> DefaultChannelListenerList) | Some ll \<Rightarrow> m)"

definition RegisterListener_Internal ::
  "FGameplayTag \<Rightarrow> callback \<Rightarrow> UScriptStruct option \<Rightarrow> EDanzmannGameplayMessagesMatchCriteria
     \<Rightarrow> listener_map \<Rightarrow> FDanzmannGameplayMessagesListenerHandle \<times> listener_map" where
  "RegisterListener_Internal Chan Cb StructType Criteria m =
     (let m1 = FindOrAdd Chan m;
          ListenersList = the (m1 Chan);
          NewId = AvailableHandleId ListenersList + 1;
          Entry = DefaultListenerData
            \<lparr>Callback := Cb,
             GameplayMessageStructType := StructType,
             bHasValidType := (StructType \<noteq> None),
             HandleId := NewId,
             MatchCriteria := Criteria\<rparr>
      in (\<lparr>Channel = Chan, Id = NewId\<rparr>,
          m1(Chan \<mapsto> \<lparr>Listeners = Listeners ListenersList @ [Entry],
                       AvailableHandleId = NewId\<rparr>)))"

text \<open>\<open>TArray::IndexOfByPredicate\<close>: the first index whose entry has the identifier, if any.\<close>

fun IndexOfHandleId :: "32 word \<Rightarrow> FDanzmannGameplayMessagesListenerData list \<Rightarrow> nat option" where
  "IndexOfHandleId i [] = None"
| "IndexOfHandleId i (L # Ls) =
     (if HandleId L = i then Some 0 else map_option Suc (IndexOfHandleId i Ls))"

text \<open>\<open>TArray::RemoveAtSwap\<close>: the last entry is moved into the hole, the array shrinks by one.\<close>

definition RemoveAtSwap :: "nat \<Rightarrow> 'a list \<Rightarrow> 'a list" where
  "RemoveAtSwap i xs = butlast (xs[i := last xs])"

definition UnregisterListener_Internal ::
  "FGameplayTag \<Rightarrow> 32 word \<Rightarrow> listener_map \<Rightarrow> listener_map" where
  "UnregisterListener_Internal Chan HId m =
     (case m Chan of
        None \<Rightarrow> m
      | Some ListenersList \<Rightarrow>
          (let Ls = (case IndexOfHandleId HId (Listeners ListenersList) of
                       None \<Rightarrow> Listeners ListenersList
                     | Some MatchIndex \<Rightarrow> RemoveAtSwap MatchIndex (Listeners ListenersList))
           in if length Ls = 0 then m(Chan := None)
              else m(Chan \<mapsto> ListenersList\<lparr>Listeners := Ls\<rparr>)))"

definition UnregisterListener ::
  "FDanzmannGameplayMessagesListenerHandle \<Rightarrow> listener_map \<Rightarrow> log_event list \<times> listener_map" where
  "UnregisterListener Handle m =
     (if IsValid Handle then ([], UnregisterListener_Internal (Channel Handle) (Id Handle) m)
      else ([WarningInvalidHandle], m))"

text \<open>\<open>Deinitialize\<close> resets the map.\<close>

definition Deinitialize :: "listener_map \<Rightarrow> listener_map" where
  "Deinitialize m = Map.empty"

section \<open>Broadcast\<close>

text \<open>Whether the next registration on the channel increments the identifier past \<open>INT32_MAX\<close>.\<close>

definition HandleIdOverflows :: "listener_map \<Rightarrow> FGameplayTag \<Rightarrow> bool" where
  "HandleIdOverflows m Chan =
     (case m Chan of None \<Rightarrow> False | Some ll \<Rightarrow> AvailableHandleId ll = 0x7FFFFFFF)"

text \<open>Running the body of a callback: its router calls, one after the other.\<close>

fun run_callback :: "callback \<Rightarrow> listener_map \<Rightarrow> log_event list \<times> listener_map" where
  "run_callback [] m = ([], m)"
| "run_callback (CallRegisterListener Chan Cb StructType Criteria # cs) m =
     (let m1 = snd (RegisterListener_Internal Chan Cb StructType Criteria m);
          (es, m2) = run_callback cs m1
      in ((if HandleIdOverflows m Chan then [HandleIdOverflow Chan] else []) @ es, m2))"
| "run_callback (CallUnregisterListener Handle # cs) m =
     (let (es1, m1) = UnregisterListener Handle m;
          (es2, m2) = run_callback cs m1
      in (es1 @ es2, m2))"

text \<open>
  The body of the inner loop of \<open>BroadcastGameplayMessage_Internal\<close> for one entry of the
  copied array: \<open>Chan\<close> is the channel of the broadcast, \<open>Tag\<close> the level the outer loop is at.
\<close>

definition deliver_to_listener ::
  "(UScriptStruct \<Rightarrow> bool) \<Rightarrow> FGameplayTag \<Rightarrow> UScriptStruct \<Rightarrow> payload \<Rightarrow> bool \<Rightarrow> FGameplayTag
     \<Rightarrow> FDanzmannGameplayMessagesListenerData \<Rightarrow> listener_map \<Rightarrow> log_event list \<times> listener_map" where
  "deliver_to_listener alive Chan StructType Payload bOnInitialTag Tag Listener m =
     (if bOnInitialTag \<or> MatchCriteria Listener = PartialMatch then
        if bHasValidType Listener
           \<and> \<not> Weak_IsValid alive (GameplayMessageStructType Listener) then
          ([WarningStructTypeGoneInvalid Chan],
           UnregisterListener_Internal Chan (HandleId Listener) m)
        else if \<not> bHasValidType Listener
                \<or> IsChildOf StructType (Weak_Get alive (GameplayMessageStructType Listener)) then
          (let (es, m1) = run_callback (Callback Listener) m
           in (CallbackInvoked Tag Listener Chan StructType Payload # es, m1))
        else
          ([ErrorStructTypeMismatch Chan StructType Tag (GameplayMessageStructType Listener)], m)
      else ([], m))"

text \<open>The inner loop, over the copy of the level's array.\<close>

fun deliver_to_listeners ::
  "(UScriptStruct \<Rightarrow> bool) \<Rightarrow> FGameplayTag \<Rightarrow> UScriptStruct \<Rightarrow> payload \<Rightarrow> bool \<Rightarrow> FGameplayTag
     \<Rightarrow> FDanzmannGameplayMessagesListenerData list \<Rightarrow> listener_map
     \<Rightarrow> log_event list \<times> listener_map" where
  "deliver_to_listeners alive Chan StructType Payload bOnInitialTag Tag [] m = ([], m)"
| "deliver_to_listeners alive Chan StructType Payload bOnInitialTag Tag (Listener # Ls) m =
     (let (es1, m1) = deliver_to_listener alive Chan StructType Payload bOnInitialTag Tag Listener m;
          (es2, m2) = deliver_to_listeners alive Chan StructType Payload bOnInitialTag Tag Ls m1
      in (es1 @ es2, m2))"

text \<open>One round of the outer loop: look the level up, copy its array, run the inner loop.\<close>

definition deliver_at_tag ::
  "(UScriptStruct \<Rightarrow> bool) \<Rightarrow> FGameplayTag \<Rightarrow> UScriptStruct \<Rightarrow> payload \<Rightarrow> bool \<Rightarrow> FGameplayTag
     \<Rightarrow> listener_map \<Rightarrow> log_event list \<times> listener_map" where
  "deliver_at_tag alive Chan StructType Payload bOnInitialTag Tag m =
     (case m Tag of
        None \<Rightarrow> ([], m)
      | Some ListenersList \<Rightarrow>
          deliver_to_listeners alive Chan StructType Payload bOnInitialTag Tag
            (Listeners ListenersList) m)"

text \<open>
  The outer loop, from \<open>Tag\<close> up to the root. The verbose trace that the source prints
  before the loop, when that log level is active, is left out.
\<close>

function broadcast_from ::
  "(UScriptStruct \<Rightarrow> bool) \<Rightarrow> FGameplayTag \<Rightarrow> UScriptStruct \<Rightarrow> payload \<Rightarrow> bool \<Rightarrow> FGameplayTag
     \<Rightarrow> listener_map \<Rightarrow> log_event list \<times> listener_map" where
  "broadcast_from alive Chan StructType Payload bOnInitialTag Tag m =
     (if IsValid_Tag Tag then
        (let (es1, m1) = deliver_at_tag alive Chan StructType Payload bOnInitialTag Tag m;
             (es2, m2) = broadcast_from alive Chan StructType Payload False
                           (RequestDirectParent Tag) m1
         in (es1 @ es2, m2))
      else ([], m))"
  by pat_completeness auto
termination
  by (relation "measure (\<lambda>(alive, Chan, StructType, Payload, b, Tag, m). length Tag)")
     (auto simp: IsValid_Tag_def RequestDirectParent_def)

definition BroadcastGameplayMessage_Internal ::
  "(UScriptStruct \<Rightarrow> bool) \<Rightarrow> FGameplayTag \<Rightarrow> UScriptStruct \<Rightarrow> payload
     \<Rightarrow> listener_map \<Rightarrow> log_event list \<times> listener_map" where
  "BroadcastGameplayMessage_Internal alive Chan StructType Payload m =
     broadcast_from alive Chan StructType Payload True Chan m"

declare broadcast_from.simps [simp del]

section \<open>Observations, invariants and example data\<close>

text \<open>The callbacks invoked by a run, each with the channel level and the entry it belongs to.\<close>

fun invocation_of ::
  "log_event \<Rightarrow> (FGameplayTag \<times> FDanzmannGameplayMessagesListenerData) option" where
  "invocation_of (CallbackInvoked Tag L Chan ST P) = Some (Tag, L)"
| "invocation_of e = None"

definition invocations ::
  "log_event list \<Rightarrow> (FGameplayTag \<times> FDanzmannGameplayMessagesListenerData) list" where
  "invocations es = List.map_filter invocation_of es"

text \<open>An entry is identified by the channel whose list holds it and its identifier.\<close>

definition invocation_key ::
  "FGameplayTag \<times> FDanzmannGameplayMessagesListenerData \<Rightarrow> FGameplayTag \<times> 32 word" where
  "invocation_key x = (fst x, HandleId (snd x))"

fun is_overflow :: "log_event \<Rightarrow> bool" where
  "is_overflow (HandleIdOverflow Tag) = True"
| "is_overflow e = False"

definition no_overflow :: "log_event list \<Rightarrow> bool" where
  "no_overflow es = (\<not> list_ex is_overflow es)"

text \<open>
  The three tests of the inner loop taken together: the entry is eligible at the level, its
  struct type has not gone invalid, and the broadcast type passes the type check.
\<close>

definition is_delivered ::
  "(UScriptStruct \<Rightarrow> bool) \<Rightarrow> UScriptStruct \<Rightarrow> bool \<Rightarrow> FDanzmannGameplayMessagesListenerData \<Rightarrow> bool" where
  "is_delivered alive StructType bOnInitialTag Listener =
     ((bOnInitialTag \<or> MatchCriteria Listener = PartialMatch)
      \<and> \<not> (bHasValidType Listener \<and> \<not> Weak_IsValid alive (GameplayMessageStructType Listener))
      \<and> (\<not> bHasValidType Listener
          \<or> IsChildOf StructType (Weak_Get alive (GameplayMessageStructType Listener))))"

text \<open>The values the loop variable \<open>Tag\<close> of the outer loop takes, in order.\<close>

function visited_tags :: "FGameplayTag \<Rightarrow> FGameplayTag list" where
  "visited_tags Tag =
     (if IsValid_Tag Tag then Tag # visited_tags (RequestDirectParent Tag) else [])"
  by pat_completeness auto
termination
  by (relation "measure length") (auto simp: IsValid_Tag_def RequestDirectParent_def)

declare visited_tags.simps [simp del]

text \<open>The array a level's round copies: the channel's listeners, none if it has no list.\<close>

definition snapshot ::
  "listener_map \<Rightarrow> FGameplayTag \<Rightarrow> FDanzmannGameplayMessagesListenerData list" where
  "snapshot m Tag = (case m Tag of None \<Rightarrow> [] | Some ll \<Rightarrow> Listeners ll)"

text \<open>One round of the outer loop for each tag of a list, the first round being the initial one.\<close>

fun deliver_at_tags ::
  "(UScriptStruct \<Rightarrow> bool) \<Rightarrow> FGameplayTag \<Rightarrow> UScriptStruct \<Rightarrow> payload \<Rightarrow> bool \<Rightarrow> FGameplayTag list
     \<Rightarrow> listener_map \<Rightarrow> log_event list \<times> listener_map" where
  "deliver_at_tags alive Chan StructType Payload bOnInitialTag [] m = ([], m)"
| "deliver_at_tags alive Chan StructType Payload bOnInitialTag (Tag # Tags) m =
     (let (es1, m1) = deliver_at_tag alive Chan StructType Payload bOnInitialTag Tag m;
          (es2, m2) = deliver_at_tags alive Chan StructType Payload False Tags m1
      in (es1 @ es2, m2))"

text \<open>The invariant of the registry: a channel has a list exactly if it has a listener.\<close>

definition presence_invariant :: "listener_map \<Rightarrow> bool" where
  "presence_invariant m = (\<forall>Tag. (m Tag \<noteq> None) = (snapshot m Tag \<noteq> []))"

text \<open>
  The identifiers of a channel's list: the counter is not negative, the entries have distinct
  identifiers, all positive and none above the counter (as signed 32-bit numbers).
\<close>

definition list_ids_ok :: "FDanzmannChannelListenerList \<Rightarrow> bool" where
  "list_ids_ok ll =
     (0 \<le> sint (AvailableHandleId ll)
      \<and> distinct (map HandleId (Listeners ll))
      \<and> list_all (\<lambda>L. 0 < sint (HandleId L) \<and> sint (HandleId L) \<le> sint (AvailableHandleId ll))
           (Listeners ll))"

definition handle_ids_ok :: "listener_map \<Rightarrow> bool" where
  "handle_ids_ok m = (\<forall>Tag ll. m Tag = Some ll \<longrightarrow> list_ids_ok ll)"

text \<open>
  The registries the operations build from the empty one, as long as no identifier
  overflows.
\<close>

inductive reachable :: "listener_map \<Rightarrow> bool" where
  initial: "reachable Map.empty"
| registered:
    "reachable m \<Longrightarrow> \<not> HandleIdOverflows m Chan \<Longrightarrow>
       reachable (snd (RegisterListener_Internal Chan Cb StructType Criteria m))"
| unregistered: "reachable m \<Longrightarrow> reachable (snd (UnregisterListener Handle m))"
| broadcast:
    "reachable m \<Longrightarrow>
       no_overflow (fst (BroadcastGameplayMessage_Internal alive Chan StructType Payload m)) \<Longrightarrow>
       reachable (snd (BroadcastGameplayMessage_Internal alive Chan StructType Payload m))"
| deinitialized: "reachable m \<Longrightarrow> reachable (Deinitialize m)"

text \<open>
  Example data, after the end-to-end scenario of the specification: \<open>L1\<close> on
  \<open>Game.Death\<close> (exact, type \<open>Death\<close>), \<open>L2\<close> on \<open>Game\<close> (partial, type \<open>Death\<close>) and
  \<open>L3\<close> on \<open>Game.Death\<close> (exact, type \<open>Kill\<close>), registered in this order.
\<close>

definition Death :: UScriptStruct where "Death = ScriptStruct ''Death'' None"
definition Kill :: UScriptStruct where "Kill = ScriptStruct ''Kill'' None"
definition all_alive :: "UScriptStruct \<Rightarrow> bool" where "all_alive S = True"

definition L1 :: FDanzmannGameplayMessagesListenerData where
  "L1 = \<lparr>HandleId = 1, Callback = [], GameplayMessageStructType = Some Death,
          bHasValidType = True, MatchCriteria = ExactMatch\<rparr>"

definition L2 :: FDanzmannGameplayMessagesListenerData where
  "L2 = \<lparr>HandleId = 1, Callback = [], GameplayMessageStructType = Some Death,
          bHasValidType = True, MatchCriteria = PartialMatch\<rparr>"

definition L3 :: FDanzmannGameplayMessagesListenerData where
  "L3 = \<lparr>HandleId = 2, Callback = [], GameplayMessageStructType = Some Kill,
          bHasValidType = True, MatchCriteria = ExactMatch\<rparr>"

definition scenario_map :: listener_map where
  "scenario_map =
     snd (RegisterListener_Internal [''Game'', ''Death''] [] (Some Kill) ExactMatch
       (snd (RegisterListener_Internal [''Game''] [] (Some Death) PartialMatch
         (snd (RegisterListener_Internal [''Game'', ''Death''] [] (Some Death) ExactMatch
            Map.empty)))))"

text \<open>
  A client of the router is a sequence of router calls as well. For a channel: its counter
  (0 while it has no list), the identifiers the registrations of a sequence return on it, and
  whether no unregistration of the sequence removes its list.
\<close>

definition counter_of :: "listener_map \<Rightarrow> FGameplayTag \<Rightarrow> 32 word" where
  "counter_of m Chan = (case m Chan of None \<Rightarrow> 0 | Some ll \<Rightarrow> AvailableHandleId ll)"

fun issued_ids :: "FGameplayTag \<Rightarrow> router_call list \<Rightarrow> listener_map \<Rightarrow> 32 word list" where
  "issued_ids Chan [] m = []"
| "issued_ids Chan (CallRegisterListener C Cb StructType Criteria # cs) m =
     (let (Handle, m1) = RegisterListener_Internal C Cb StructType Criteria m
      in (if C = Chan then [Id Handle] else []) @ issued_ids Chan cs m1)"
| "issued_ids Chan (CallUnregisterListener Handle # cs) m =
     issued_ids Chan cs (snd (UnregisterListener Handle m))"

fun never_emptied :: "FGameplayTag \<Rightarrow> router_call list \<Rightarrow> listener_map \<Rightarrow> bool" where
  "never_emptied Chan [] m = True"
| "never_emptied Chan (CallRegisterListener C Cb StructType Criteria # cs) m =
     never_emptied Chan cs (snd (RegisterListener_Internal C Cb StructType Criteria m))"
| "never_emptied Chan (CallUnregisterListener Handle # cs) m =
     (\<not> (m Chan \<noteq> None \<and> snd (UnregisterListener Handle m) Chan = None)
      \<and> never_emptied Chan cs (snd (UnregisterListener Handle m)))"

fun registers_on :: "FGameplayTag \<Rightarrow> router_call \<Rightarrow> bool" where
  "registers_on Chan (CallRegisterListener C Cb StructType Criteria) = (C = Chan)"
| "registers_on Chan (CallUnregisterListener Handle) = False"

definition three_registrations :: "router_call list" where
  "three_registrations =
     [CallRegisterListener [''Game''] [] (Some Death) ExactMatch,
      CallRegisterListener [''Game''] [] (Some Death) PartialMatch,
      CallRegisterListener [''Game''] [] (Some Kill) ExactMatch]"

text \<open>
  A listener on \<open>A.B\<close> whose callback registers a partial-match listener on the parent
  channel \<open>A\<close>; \<open>Lnew\<close> is the entry that registration creates.
\<close>

definition reentrant_callback :: callback where
  "reentrant_callback = [CallRegisterListener [''A''] [] (Some Death) PartialMatch]"

definition La :: FDanzmannGameplayMessagesListenerData where
  "La = \<lparr>HandleId = 1, Callback = reentrant_callback, GameplayMessageStructType = Some Death,
          bHasValidType = True, MatchCriteria = ExactMatch\<rparr>"

definition Lnew :: FDanzmannGameplayMessagesListenerData where
  "Lnew = \<lparr>HandleId = 1, Callback = [], GameplayMessageStructType = Some Death,
            bHasValidType = True, MatchCriteria = PartialMatch\<rparr>"

definition reentrant_map :: listener_map where
  "reentrant_map =
     snd (RegisterListener_Internal [''A'', ''B''] reentrant_callback (Some Death) ExactMatch
            Map.empty)"

text \<open>
  A listener on \<open>A.B\<close> whose callback registers another listener on \<open>A.B\<close> and
  unregisters itself.
\<close>

definition self_replacing_callback :: callback where
  "self_replacing_callback =
     [CallRegisterListener [''A'', ''B''] [] (Some Death) ExactMatch,
      CallUnregisterListener \<lparr>Channel = [''A'', ''B''], Id = 1\<rparr>]"

definition Lself :: FDanzmannGameplayMessagesListenerData where
  "Lself = \<lparr>HandleId = 1, Callback = self_replacing_callback, GameplayMessageStructType = Some Death,
             bHasValidType = True, MatchCriteria = ExactMatch\<rparr>"

definition self_replacing_map :: listener_map where
  "self_replacing_map =
     snd (RegisterListener_Internal [''A'', ''B''] self_replacing_callback (Some Death) ExactMatch
            Map.empty)"

text \<open>
  The struct type \<open>Kill\<close> has been destroyed; a partial-match listener on \<open>A\<close> still
  expects it, and \<open>L1\<close> listens on \<open>A.B\<close>.
\<close>

definition kill_collected :: "UScriptStruct \<Rightarrow> bool" where
  "kill_collected S = (S \<noteq> Kill)"

definition Lstale :: FDanzmannGameplayMessagesListenerData where
  "Lstale = \<lparr>HandleId = 1, Callback = [], GameplayMessageStructType = Some Kill,
              bHasValidType = True, MatchCriteria = PartialMatch\<rparr>"

definition stale_map :: listener_map where
  "stale_map =
     snd (RegisterListener_Internal [''A''] [] (Some Kill) PartialMatch
       (snd (RegisterListener_Internal [''A'', ''B''] [] (Some Death) ExactMatch Map.empty)))"


section \<open>Auxiliary facts\<close>

subsection \<open>Arrays and identifiers\<close>

lemma RemoveAtSwap_append_last: "RemoveAtSwap (length pre) (pre @ [x]) = pre"
  by (simp add: RemoveAtSwap_def)

lemma RemoveAtSwap_append_inner:
  "post \<noteq> [] \<Longrightarrow> RemoveAtSwap (length pre) (pre @ x # post) = pre @ last post # butlast post"
  by (simp add: RemoveAtSwap_def butlast_append)

lemma RemoveAtSwap_cases:
  assumes "i < length xs"
  obtains pre x where "xs = pre @ [x]" "i = length pre" "RemoveAtSwap i xs = pre"
  | pre x post where "xs = pre @ x # post" "i = length pre" "post \<noteq> []"
      "RemoveAtSwap i xs = pre @ last post # butlast post"
proof -
  from assms have xs: "xs = take i xs @ xs ! i # drop (Suc i) xs" and len: "length (take i xs) = i"
    by (simp_all add: id_take_nth_drop)
  show thesis
  proof (cases "drop (Suc i) xs = []")
    case True
    with xs have e: "xs = take i xs @ [xs ! i]" by simp
    have "RemoveAtSwap i xs = take i xs"
      using RemoveAtSwap_append_last [of "take i xs" "xs ! i"] e len by simp
    with e len show thesis using that(1) by metis
  next
    case False
    have "RemoveAtSwap i xs = take i xs @ last (drop (Suc i) xs) # butlast (drop (Suc i) xs)"
      using RemoveAtSwap_append_inner [OF False, of "take i xs" "xs ! i"] xs len by simp
    with xs len False show thesis using that(2) by metis
  qed
qed

lemma RemoveAtSwap_set:
  assumes "distinct xs" "i < length xs"
  shows "set (RemoveAtSwap i xs) = set xs - {xs ! i}"
  using assms(2)
proof (cases rule: RemoveAtSwap_cases)
  case (1 pre x)
  then show ?thesis using assms(1) by auto
next
  case (2 pre x post)
  have "butlast post @ [last post] = post" using 2(3) by simp
  then have "set post = set (butlast post @ [last post])" by simp
  then have "set post = insert (last post) (set (butlast post))" by simp
  then show ?thesis using assms(1) 2 by auto
qed

lemma RemoveAtSwap_distinct:
  assumes "distinct xs" "i < length xs"
  shows "distinct (RemoveAtSwap i xs)"
  using assms(2)
proof (cases rule: RemoveAtSwap_cases)
  case (1 pre x)
  then show ?thesis using assms(1) by auto
next
  case (2 pre x post)
  have p: "post = butlast post @ [last post]" using 2(3) by simp
  have "distinct (pre @ x # butlast post @ [last post])" using assms(1) 2(1) p by simp
  then show ?thesis using 2(4) by auto
qed

lemma RemoveAtSwap_length: "i < length xs \<Longrightarrow> length (RemoveAtSwap i xs) = length xs - 1"
  by (simp add: RemoveAtSwap_def)

lemma RemoveAtSwap_map: "map f (RemoveAtSwap i xs) = RemoveAtSwap i (map f xs)"
  by (cases "xs = []") (simp_all add: RemoveAtSwap_def map_butlast map_update last_map)

lemma RemoveAtSwap_subset:
  assumes "i < length xs" shows "set (RemoveAtSwap i xs) \<subseteq> set xs"
  using assms
proof (cases rule: RemoveAtSwap_cases)
  case (1 pre x) then show ?thesis by auto
next
  case (2 pre x post)
  then show ?thesis using in_set_butlastD [of _ post] last_in_set [of post] by auto
qed

lemma IndexOfHandleId_None: "IndexOfHandleId i Ls = None \<longleftrightarrow> i \<notin> HandleId ` set Ls"
  by (induction Ls) auto

lemma IndexOfHandleId_Some:
  "IndexOfHandleId i Ls = Some k \<Longrightarrow> k < length Ls \<and> HandleId (Ls ! k) = i"
  by (induction Ls arbitrary: k) (auto split: if_splits)

lemma sint_succ:
  fixes c :: "32 word"
  assumes "sint c < 2147483647"
  shows "sint (c + 1) = sint c + 1"
proof -
  have lo: "- (2 ^ 31) \<le> sint c" using sint_ge [of c] by simp
  have "sint (c + 1) = signed_take_bit 31 (sint c + 1)"
    by (simp add: sint_word_ariths)
  also have "\<dots> = sint c + 1"
    using lo assms by (intro signed_take_bit_int_eq_self) simp_all
  finally show ?thesis .
qed

lemma sint_max_iff: "(c :: 32 word) = 0x7FFFFFFF \<longleftrightarrow> sint c = 2147483647"
proof
  assume "c = 0x7FFFFFFF" then show "sint c = 2147483647" by simp
next
  assume "sint c = 2147483647"
  then have "sint c = sint (0x7FFFFFFF :: 32 word)" by simp
  then show "c = 0x7FFFFFFF" by (rule signed_word_eqI)
qed

lemma sint_below_max: "(c :: 32 word) \<noteq> 0x7FFFFFFF \<Longrightarrow> sint c < 2147483647"
  using sint_lt [of c] sint_max_iff [of c] by simp

lemma Register_lookup:
  "snd (RegisterListener_Internal Chan Cb ST Cr m) Tag =
     (if Tag = Chan then
        Some \<lparr>Listeners = (case m Chan of None \<Rightarrow> [] | Some ll \<Rightarrow> Listeners ll)
                 @ [\<lparr>HandleId = (case m Chan of None \<Rightarrow> 0 | Some ll \<Rightarrow> AvailableHandleId ll) + 1,
                     Callback = Cb, GameplayMessageStructType = ST,
                     bHasValidType = (ST \<noteq> None), MatchCriteria = Cr\<rparr>],
              AvailableHandleId = (case m Chan of None \<Rightarrow> 0 | Some ll \<Rightarrow> AvailableHandleId ll) + 1\<rparr>
      else m Tag)"
  by (simp add: RegisterListener_Internal_def FindOrAdd_def DefaultChannelListenerList_def
      DefaultListenerData_def Let_def split: option.splits)

lemma Register_handle:
  "fst (RegisterListener_Internal Chan Cb ST Cr m) =
     \<lparr>Channel = Chan, Id = (case m Chan of None \<Rightarrow> 0 | Some ll \<Rightarrow> AvailableHandleId ll) + 1\<rparr>"
  by (simp add: RegisterListener_Internal_def FindOrAdd_def DefaultChannelListenerList_def
      Let_def split: option.splits)

lemma presence_invariant_alt:
  "presence_invariant m = (\<forall>Tag ll. m Tag = Some ll \<longrightarrow> Listeners ll \<noteq> [])"
  unfolding presence_invariant_def snapshot_def
proof
  assume a: "\<forall>Tag. (m Tag \<noteq> None) = ((case m Tag of None \<Rightarrow> [] | Some ll \<Rightarrow> Listeners ll) \<noteq> [])"
  show "\<forall>Tag ll. m Tag = Some ll \<longrightarrow> Listeners ll \<noteq> []"
  proof (intro allI impI)
    fix Tag ll assume "m Tag = Some ll"
    with a [rule_format, of Tag] show "Listeners ll \<noteq> []" by simp
  qed
next
  assume a: "\<forall>Tag ll. m Tag = Some ll \<longrightarrow> Listeners ll \<noteq> []"
  show "\<forall>Tag. (m Tag \<noteq> None) = ((case m Tag of None \<Rightarrow> [] | Some ll \<Rightarrow> Listeners ll) \<noteq> [])"
  proof
    fix Tag show "(m Tag \<noteq> None) = ((case m Tag of None \<Rightarrow> [] | Some ll \<Rightarrow> Listeners ll) \<noteq> [])"
      using a by (cases "m Tag") auto
  qed
qed

lemma Register_presence:
  "presence_invariant m \<Longrightarrow> presence_invariant (snd (RegisterListener_Internal Chan Cb ST Cr m))"
  unfolding presence_invariant_alt by (auto simp: Register_lookup split: if_splits)

lemma Unregister_Internal_lookup_other:
  "Tag \<noteq> Chan \<Longrightarrow> UnregisterListener_Internal Chan HId m Tag = m Tag"
  by (simp add: UnregisterListener_Internal_def Let_def split: option.splits)

lemma Unregister_Internal_lookup_same:
  "UnregisterListener_Internal Chan HId m Chan =
     (case m Chan of None \<Rightarrow> None
      | Some ll \<Rightarrow>
         (let Ls = (case IndexOfHandleId HId (Listeners ll) of None \<Rightarrow> Listeners ll
                    | Some k \<Rightarrow> RemoveAtSwap k (Listeners ll))
          in if Ls = [] then None else Some (ll\<lparr>Listeners := Ls\<rparr>)))"
  by (simp add: UnregisterListener_Internal_def Let_def split: option.splits)

lemma Unregister_Internal_presence:
  "presence_invariant m \<Longrightarrow> presence_invariant (UnregisterListener_Internal Chan HId m)"
  unfolding presence_invariant_alt
proof (intro allI impI)
  fix Tag ll
  assume inv: "\<forall>Tag ll. m Tag = Some ll \<longrightarrow> Listeners ll \<noteq> []"
    and look: "UnregisterListener_Internal Chan HId m Tag = Some ll"
  show "Listeners ll \<noteq> []"
  proof (cases "Tag = Chan")
    case False
    with look inv show ?thesis by (simp add: Unregister_Internal_lookup_other)
  next
    case True
    with look show ?thesis
      by (auto simp: Unregister_Internal_lookup_same Let_def split: option.splits if_splits)
  qed
qed

lemma Unregister_presence:
  "presence_invariant m \<Longrightarrow> presence_invariant (snd (UnregisterListener Handle m))"
  by (simp add: UnregisterListener_def Unregister_Internal_presence)

lemma Register_ids_ok:
  assumes "handle_ids_ok m" "\<not> HandleIdOverflows m Chan"
  shows "handle_ids_ok (snd (RegisterListener_Internal Chan Cb ST Cr m))"
  unfolding handle_ids_ok_def
proof (intro allI impI)
  fix Tag ll
  assume look: "snd (RegisterListener_Internal Chan Cb ST Cr m) Tag = Some ll"
  show "list_ids_ok ll"
  proof (cases "Tag = Chan")
    case False
    with look assms(1) show ?thesis by (simp add: Register_lookup handle_ids_ok_def)
  next
    case True
    show ?thesis
    proof (cases "m Chan")
      case None
      with look True show ?thesis by (auto simp: Register_lookup list_ids_ok_def)
    next
      case (Some l0)
      with assms have ok: "list_ids_ok l0" and lt: "sint (AvailableHandleId l0) < 2147483647"
        by (auto simp: handle_ids_ok_def HandleIdOverflows_def intro: sint_below_max)
      have s: "sint (AvailableHandleId l0 + 1) = sint (AvailableHandleId l0) + 1"
        using lt by (rule sint_succ)
      have "\<forall>L\<in>set (Listeners l0). sint (HandleId L) < sint (AvailableHandleId l0 + 1)"
        using ok s by (auto simp: list_ids_ok_def list_all_iff)
      then have fresh: "AvailableHandleId l0 + 1 \<notin> HandleId ` set (Listeners l0)" by auto
      have le: "\<forall>L\<in>set (Listeners l0). sint (HandleId L) \<le> sint (AvailableHandleId l0) + 1"
        using ok by (fastforce simp: list_ids_ok_def list_all_iff)
      show ?thesis
        using look True Some ok s fresh le
        by (auto simp: Register_lookup list_ids_ok_def list_all_iff)
    qed
  qed
qed

lemma Unregister_Internal_ids_ok:
  assumes "handle_ids_ok m"
  shows "handle_ids_ok (UnregisterListener_Internal Chan HId m)"
  unfolding handle_ids_ok_def
proof (intro allI impI)
  fix Tag ll
  assume look: "UnregisterListener_Internal Chan HId m Tag = Some ll"
  show "list_ids_ok ll"
  proof (cases "Tag = Chan")
    case False
    with look assms show ?thesis by (simp add: Unregister_Internal_lookup_other handle_ids_ok_def)
  next
    case True
    with look obtain l0 where l0: "m Chan = Some l0"
      by (auto simp: Unregister_Internal_lookup_same split: option.splits)
    with assms have ok: "list_ids_ok l0" by (auto simp: handle_ids_ok_def)
    show ?thesis
    proof (cases "IndexOfHandleId HId (Listeners l0)")
      case None
      with look True l0 ok show ?thesis
        by (auto simp: Unregister_Internal_lookup_same Let_def list_ids_ok_def split: if_splits)
    next
      case (Some k)
      then have k: "k < length (Listeners l0)" by (auto dest: IndexOfHandleId_Some)
      from look True l0 Some have ll: "ll = l0\<lparr>Listeners := RemoveAtSwap k (Listeners l0)\<rparr>"
        by (auto simp: Unregister_Internal_lookup_same Let_def split: if_splits)
      have "distinct (map HandleId (RemoveAtSwap k (Listeners l0)))"
        using ok k by (simp add: RemoveAtSwap_map RemoveAtSwap_distinct list_ids_ok_def)
      moreover have "set (RemoveAtSwap k (Listeners l0)) \<subseteq> set (Listeners l0)"
        using k by (rule RemoveAtSwap_subset)
      ultimately show ?thesis using ok ll by (auto simp: list_ids_ok_def list_all_iff)
    qed
  qed
qed

lemma invocations_Nil [simp]: "invocations [] = []"
  by (simp add: invocations_def map_filter_simps)

lemma invocations_append [simp]: "invocations (es @ fs) = invocations es @ invocations fs"
  by (simp add: invocations_def map_filter_def)

lemma invocations_Cons [simp]:
  "invocations (e # es) =
     (case invocation_of e of None \<Rightarrow> invocations es | Some x \<Rightarrow> x # invocations es)"
  unfolding invocations_def by (simp add: map_filter_simps)

lemma no_overflow_Nil [simp]: "no_overflow []"
  by (simp add: no_overflow_def)

lemma no_overflow_append [simp]: "no_overflow (es @ fs) \<longleftrightarrow> no_overflow es \<and> no_overflow fs"
  by (auto simp: no_overflow_def list_ex_iff)

lemma no_overflow_Cons [simp]: "no_overflow (e # es) \<longleftrightarrow> \<not> is_overflow e \<and> no_overflow es"
  by (auto simp: no_overflow_def)

lemma broadcast_from_invalid [simp]:
  "broadcast_from alive Chan ST P b [] m = ([], m)"
  by (simp add: broadcast_from.simps IsValid_Tag_def)

lemma broadcast_from_valid:
  "Tag \<noteq> [] \<Longrightarrow> broadcast_from alive Chan ST P b Tag m =
     (let (es1, m1) = deliver_at_tag alive Chan ST P b Tag m;
          (es2, m2) = broadcast_from alive Chan ST P False (butlast Tag) m1
      in (es1 @ es2, m2))"
  by (subst broadcast_from.simps) (simp add: IsValid_Tag_def RequestDirectParent_def)

lemma visited_tags_Nil [simp]: "visited_tags [] = []"
  by (simp add: visited_tags.simps IsValid_Tag_def)

lemma visited_tags_valid: "Tag \<noteq> [] \<Longrightarrow> visited_tags Tag = Tag # visited_tags (butlast Tag)"
  by (subst visited_tags.simps) (simp add: IsValid_Tag_def RequestDirectParent_def)

lemma visited_tags_snoc [simp]: "visited_tags (Tag @ [s]) = (Tag @ [s]) # visited_tags Tag"
  by (simp add: visited_tags_valid)

lemma set_visited_tags: "set (visited_tags Tag) = {T. T \<noteq> [] \<and> prefix T Tag}"
  by (induction Tag rule: rev_induct) auto

lemma visited_tags_shorter: "T \<in> set (visited_tags Tag) \<Longrightarrow> length T \<le> length Tag"
  by (auto simp: set_visited_tags prefix_length_le)

lemma distinct_visited_tags: "distinct (visited_tags Tag)"
proof (induction Tag rule: rev_induct)
  case (snoc s Tag)
  have "Tag @ [s] \<notin> set (visited_tags Tag)"
    using visited_tags_shorter [of "Tag @ [s]" Tag] by auto
  with snoc show ?case by simp
qed simp

lemma sorted_visited_tags: "sorted_wrt (\<lambda>T U. strict_prefix U T) (visited_tags Tag)"
proof (induction Tag rule: rev_induct)
  case (snoc s Tag)
  have "\<forall>U\<in>set (visited_tags Tag). strict_prefix U (Tag @ [s])"
    by (auto simp: set_visited_tags strict_prefix_def prefix_def)
  then show ?case using snoc by simp
qed simp

subsection \<open>Callbacks\<close>

lemma run_callback_invocations [simp]: "invocations (fst (run_callback cs m)) = []"
  by (induction cs m rule: run_callback.induct)
     (simp_all add: Let_def UnregisterListener_def split_beta)

lemma run_callback_presence:
  "presence_invariant m \<Longrightarrow> presence_invariant (snd (run_callback cs m))"
proof (induction cs m rule: run_callback.induct)
  case (2 Chan Cb StructType Criteria cs m)
  then show ?case
    by (auto simp: Let_def Register_presence split: prod.splits)
next
  case (3 Handle cs m)
  from 3(2) have "presence_invariant (snd (UnregisterListener Handle m))"
    by (rule Unregister_presence)
  with 3(1) show ?case by (auto simp: Let_def split: prod.splits)
qed simp

lemma Unregister_ids_ok:
  "handle_ids_ok m \<Longrightarrow> handle_ids_ok (snd (UnregisterListener Handle m))"
  by (simp add: UnregisterListener_def Unregister_Internal_ids_ok)

lemma run_callback_ids_ok:
  "handle_ids_ok m \<Longrightarrow> no_overflow (fst (run_callback cs m))
     \<Longrightarrow> handle_ids_ok (snd (run_callback cs m))"
proof (induction cs m rule: run_callback.induct)
  case (2 Chan Cb StructType Criteria cs m)
  from 2(3) have no: "\<not> HandleIdOverflows m Chan"
    by (auto simp: Let_def split: prod.splits if_splits)
  with 2(2) have "handle_ids_ok (snd (RegisterListener_Internal Chan Cb StructType Criteria m))"
    by (rule Register_ids_ok)
  with 2(1) 2(3) show ?case
    by (auto simp: Let_def split: prod.splits if_splits)
next
  case (3 Handle cs m)
  from 3(2) have "handle_ids_ok (snd (UnregisterListener Handle m))"
    by (rule Unregister_ids_ok)
  with 3(1) 3(3) show ?case by (auto simp: Let_def split: prod.splits)
qed simp

subsection \<open>One listener\<close>

lemma deliver_to_listener_presence:
  "presence_invariant m \<Longrightarrow>
     presence_invariant (snd (deliver_to_listener alive Chan ST P b Tag L m))"
  using run_callback_presence [of m "Callback L"]
  by (auto simp: deliver_to_listener_def Unregister_Internal_presence split: prod.splits)

lemma deliver_to_listener_ids_ok:
  "handle_ids_ok m \<Longrightarrow> no_overflow (fst (deliver_to_listener alive Chan ST P b Tag L m)) \<Longrightarrow>
     handle_ids_ok (snd (deliver_to_listener alive Chan ST P b Tag L m))"
  using run_callback_ids_ok [of m "Callback L"]
  by (auto simp: deliver_to_listener_def Unregister_Internal_ids_ok split: prod.splits if_splits)

lemma deliver_to_listener_invocations:
  "invocations (fst (deliver_to_listener alive Chan ST P b Tag L m)) =
     (if is_delivered alive ST b L then [(Tag, L)] else [])"
  by (simp add: deliver_to_listener_def is_delivered_def split_beta)

subsection \<open>One level\<close>

lemma deliver_to_listeners_presence:
  "presence_invariant m \<Longrightarrow>
     presence_invariant (snd (deliver_to_listeners alive Chan ST P b Tag Ls m))"
proof (induction Ls arbitrary: m)
  case (Cons L Ls)
  from Cons(2) have "presence_invariant (snd (deliver_to_listener alive Chan ST P b Tag L m))"
    by (rule deliver_to_listener_presence)
  from Cons(1) [OF this] show ?case by (simp add: split_beta)
qed simp

lemma deliver_to_listeners_ids_ok:
  "handle_ids_ok m \<Longrightarrow> no_overflow (fst (deliver_to_listeners alive Chan ST P b Tag Ls m)) \<Longrightarrow>
     handle_ids_ok (snd (deliver_to_listeners alive Chan ST P b Tag Ls m))"
proof (induction Ls arbitrary: m)
  case (Cons L Ls)
  from Cons(3) have n1: "no_overflow (fst (deliver_to_listener alive Chan ST P b Tag L m))"
    and n2: "no_overflow (fst (deliver_to_listeners alive Chan ST P b Tag Ls
               (snd (deliver_to_listener alive Chan ST P b Tag L m))))"
    by (simp_all add: split_beta)
  from Cons(2) n1 have "handle_ids_ok (snd (deliver_to_listener alive Chan ST P b Tag L m))"
    by (rule deliver_to_listener_ids_ok)
  from Cons(1) [OF this n2] show ?case by (simp add: split_beta)
qed simp

lemma deliver_to_listeners_invocations:
  "invocations (fst (deliver_to_listeners alive Chan ST P b Tag Ls m)) =
     map (Pair Tag) (filter (is_delivered alive ST b) Ls)"
  by (induction Ls arbitrary: m) (simp_all add: split_beta deliver_to_listener_invocations)

lemma deliver_at_tag_presence:
  "presence_invariant m \<Longrightarrow> presence_invariant (snd (deliver_at_tag alive Chan ST P b Tag m))"
  by (simp add: deliver_at_tag_def deliver_to_listeners_presence split: option.splits)

lemma deliver_at_tag_ids_ok:
  "handle_ids_ok m \<Longrightarrow> no_overflow (fst (deliver_at_tag alive Chan ST P b Tag m)) \<Longrightarrow>
     handle_ids_ok (snd (deliver_at_tag alive Chan ST P b Tag m))"
  by (auto simp: deliver_at_tag_def deliver_to_listeners_ids_ok split: option.splits)

lemma deliver_at_tag_invocations:
  "invocations (fst (deliver_at_tag alive Chan ST P b Tag m)) =
     map (Pair Tag) (filter (is_delivered alive ST b) (snapshot m Tag))"
  by (simp add: deliver_at_tag_def snapshot_def deliver_to_listeners_invocations
      split: option.splits)

lemma broadcast_from_presence:
  "presence_invariant m \<Longrightarrow> presence_invariant (snd (broadcast_from alive Chan ST P b Tag m))"
proof (induction Tag arbitrary: b m rule: rev_induct)
  case (snoc s Tag)
  from snoc(2) have "presence_invariant (snd (deliver_at_tag alive Chan ST P b (Tag @ [s]) m))"
    by (rule deliver_at_tag_presence)
  from snoc(1) [OF this] show ?case by (simp add: broadcast_from_valid split_beta)
qed simp

lemma broadcast_from_ids_ok:
  "handle_ids_ok m \<Longrightarrow> no_overflow (fst (broadcast_from alive Chan ST P b Tag m)) \<Longrightarrow>
     handle_ids_ok (snd (broadcast_from alive Chan ST P b Tag m))"
proof (induction Tag arbitrary: b m rule: rev_induct)
  case (snoc s Tag)
  let ?r = "deliver_at_tag alive Chan ST P b (Tag @ [s]) m"
  from snoc(3) have n1: "no_overflow (fst ?r)"
    and n2: "no_overflow (fst (broadcast_from alive Chan ST P False Tag (snd ?r)))"
    by (simp_all add: broadcast_from_valid split_beta)
  from snoc(2) n1 have "handle_ids_ok (snd ?r)" by (rule deliver_at_tag_ids_ok)
  from snoc(1) [OF this n2] show ?case by (simp add: broadcast_from_valid split_beta)
qed simp

lemma broadcast_from_deliver_at_tags:
  "broadcast_from alive Chan ST P b Tag m = deliver_at_tags alive Chan ST P b (visited_tags Tag) m"
proof (induction Tag arbitrary: b m rule: rev_induct)
  case Nil
  show ?case by simp
next
  case (snoc s Tag)
  have "broadcast_from alive Chan ST P b (Tag @ [s]) m =
     (let (es1, m1) = deliver_at_tag alive Chan ST P b (Tag @ [s]) m;
          (es2, m2) = broadcast_from alive Chan ST P False Tag m1
      in (es1 @ es2, m2))"
    using broadcast_from_valid [of "Tag @ [s]" alive Chan ST P b m] by simp
  then show ?case by (simp only: snoc visited_tags_snoc deliver_at_tags.simps)
qed

lemma broadcast_from_invocations_sound:
  "(T, L) \<in> set (invocations (fst (broadcast_from alive Chan ST P b Tag m))) \<Longrightarrow>
     T \<in> set (visited_tags Tag) \<and> ((b \<and> T = Tag) \<or> MatchCriteria L = PartialMatch)"
proof (induction Tag arbitrary: b m rule: rev_induct)
  case (snoc s Tag)
  let ?r = "deliver_at_tag alive Chan ST P b (Tag @ [s]) m"
  from snoc(2) consider
      (here) "(T, L) \<in> set (invocations (fst ?r))"
    | (up) "(T, L) \<in> set (invocations (fst (broadcast_from alive Chan ST P False Tag (snd ?r))))"
    by (auto simp: broadcast_from_valid split_beta)
  then show ?case
  proof cases
    case here
    then show ?thesis by (auto simp: deliver_at_tag_invocations is_delivered_def)
  next
    case up
    from snoc(1) [OF up] show ?thesis by auto
  qed
qed simp

lemma broadcast_from_invocations_sorted:
  "sorted_wrt (\<lambda>x y. prefix (fst y) (fst x))
     (invocations (fst (broadcast_from alive Chan ST P b Tag m)))"
proof (induction Tag arbitrary: b m rule: rev_induct)
  case (snoc s Tag)
  let ?r = "deliver_at_tag alive Chan ST P b (Tag @ [s]) m"
  let ?up = "invocations (fst (broadcast_from alive Chan ST P False Tag (snd ?r)))"
  have 1: "sorted_wrt (\<lambda>x y. prefix (fst y) (fst x)) (invocations (fst ?r))"
    by (simp add: deliver_at_tag_invocations sorted_wrt_map sorted_wrt_true)
  have 2: "sorted_wrt (\<lambda>x y. prefix (fst y) (fst x)) ?up" by (rule snoc)
  have 3: "\<forall>x\<in>set (invocations (fst ?r)). \<forall>y\<in>set ?up. prefix (fst y) (fst x)"
  proof (intro ballI)
    fix x y assume x: "x \<in> set (invocations (fst ?r))" and y: "y \<in> set ?up"
    from x have "fst x = Tag @ [s]" by (auto simp: deliver_at_tag_invocations)
    moreover from y have "fst y \<in> set (visited_tags Tag)"
      using broadcast_from_invocations_sound [of "fst y" "snd y"] by simp
    ultimately show "prefix (fst y) (fst x)" by (auto simp: set_visited_tags)
  qed
  from 1 2 3 show ?case by (simp add: broadcast_from_valid split_beta sorted_wrt_append)
qed simp

lemma broadcast_from_invocations_distinct:
  "handle_ids_ok m \<Longrightarrow> no_overflow (fst (broadcast_from alive Chan ST P b Tag m)) \<Longrightarrow>
     distinct (map invocation_key
       (invocations (fst (broadcast_from alive Chan ST P b Tag m))))"
proof (induction Tag arbitrary: b m rule: rev_induct)
  case (snoc s Tag)
  let ?r = "deliver_at_tag alive Chan ST P b (Tag @ [s]) m"
  let ?up = "invocations (fst (broadcast_from alive Chan ST P False Tag (snd ?r)))"
  let ?key = "invocation_key"
  from snoc(3) have n1: "no_overflow (fst ?r)"
    and n2: "no_overflow (fst (broadcast_from alive Chan ST P False Tag (snd ?r)))"
    by (simp_all add: broadcast_from_valid split_beta)
  from snoc(2) n1 have ok: "handle_ids_ok (snd ?r)" by (rule deliver_at_tag_ids_ok)
  have "distinct (map HandleId (snapshot m (Tag @ [s])))"
    using snoc(2) by (auto simp: snapshot_def handle_ids_ok_def list_ids_ok_def split: option.splits)
  then have "distinct (map HandleId (filter (is_delivered alive ST b) (snapshot m (Tag @ [s]))))"
    by (rule distinct_map_filter)
  then have 1: "distinct (map ?key (invocations (fst ?r)))"
    by (simp add: deliver_at_tag_invocations comp_def invocation_key_def distinct_map inj_on_def)
  have 2: "distinct (map ?key ?up)" using snoc(1) [OF ok n2] .
  have 3: "set (map ?key (invocations (fst ?r))) \<inter> set (map ?key ?up) = {}"
  proof -
    have a: "\<And>k. k \<in> set (map ?key (invocations (fst ?r))) \<Longrightarrow> fst k = Tag @ [s]"
      by (auto simp: deliver_at_tag_invocations invocation_key_def)
    have b: "\<And>k. k \<in> set (map ?key ?up) \<Longrightarrow> fst k \<in> set (visited_tags Tag)"
    proof -
      fix k assume "k \<in> set (map ?key ?up)"
      then obtain x where x: "x \<in> set ?up" and k: "k = invocation_key x" by auto
      from x have "(fst x, snd x) \<in> set ?up" by simp
      from broadcast_from_invocations_sound [OF this] k
      show "fst k \<in> set (visited_tags Tag)" by (simp add: invocation_key_def)
    qed
    have c: "Tag @ [s] \<notin> set (visited_tags Tag)"
      using visited_tags_shorter [of "Tag @ [s]" Tag] by auto
    show ?thesis
    proof (rule ccontr)
      assume "\<not> ?thesis"
      then obtain k where "k \<in> set (map ?key (invocations (fst ?r)))" "k \<in> set (map ?key ?up)"
        by blast
      with a b c show False by metis
    qed
  qed
  from 1 2 3 show ?case by (simp add: broadcast_from_valid split_beta)
qed simp

lemma scenario_map_lookup:
  "scenario_map Tag =
     (if Tag = [''Game'', ''Death''] then Some \<lparr>Listeners = [L1, L3], AvailableHandleId = 2\<rparr>
      else if Tag = [''Game''] then Some \<lparr>Listeners = [L2], AvailableHandleId = 1\<rparr>
      else None)"
  by (simp add: scenario_map_def Register_lookup L1_def L2_def L3_def)

lemma IsChildOf_refl: "IsChildOf S (Some S)"
proof (cases S)
  case (ScriptStruct n sup)
  then show ?thesis by (cases sup) simp_all
qed

lemma invoked_in_invocations:
  "CallbackInvoked Tag L c s p \<in> set es \<Longrightarrow> (Tag, L) \<in> set (invocations es)"
  by (induction es) (auto split: option.splits)

lemma scenario_broadcast:
  "BroadcastGameplayMessage_Internal all_alive [''Game'', ''Death''] Death 7 scenario_map =
     ([CallbackInvoked [''Game'', ''Death''] L1 [''Game'', ''Death''] Death 7,
       ErrorStructTypeMismatch [''Game'', ''Death''] Death [''Game'', ''Death''] (Some Kill),
       CallbackInvoked [''Game''] L2 [''Game'', ''Death''] Death 7],
      scenario_map)"
  by (simp add: BroadcastGameplayMessage_Internal_def broadcast_from_valid deliver_at_tag_def
      scenario_map_lookup deliver_to_listener_def L1_def L2_def L3_def Weak_IsValid_def
      Weak_Get_def all_alive_def Death_def Kill_def)

subsection \<open>The whole broadcast, and the example data\<close>

lemma reentrant_map_lookup:
  "reentrant_map Tag =
     (if Tag = [''A'', ''B''] then Some \<lparr>Listeners = [La], AvailableHandleId = 1\<rparr> else None)"
  by (simp add: reentrant_map_def Register_lookup La_def)

lemma self_replacing_map_lookup:
  "self_replacing_map Tag =
     (if Tag = [''A'', ''B''] then Some \<lparr>Listeners = [Lself], AvailableHandleId = 1\<rparr> else None)"
  by (simp add: self_replacing_map_def Register_lookup Lself_def)

lemma stale_map_lookup:
  "stale_map Tag =
     (if Tag = [''A''] then Some \<lparr>Listeners = [Lstale], AvailableHandleId = 1\<rparr>
      else if Tag = [''A'', ''B''] then Some \<lparr>Listeners = [L1], AvailableHandleId = 1\<rparr>
      else None)"
  by (simp add: stale_map_def Register_lookup Lstale_def L1_def)

lemma broadcast_invocations_initial:
  assumes "IsValid_Tag Chan"
  shows "invocations (fst (BroadcastGameplayMessage_Internal alive Chan ST P m)) =
           map (Pair Chan) (filter (is_delivered alive ST True) (snapshot m Chan))
           @ invocations (fst (broadcast_from alive Chan ST P False (RequestDirectParent Chan)
                 (snd (deliver_at_tag alive Chan ST P True Chan m))))"
  using assms
  by (simp add: BroadcastGameplayMessage_Internal_def IsValid_Tag_def RequestDirectParent_def
      broadcast_from_valid split_beta deliver_at_tag_invocations)

lemma broadcast_invocations_above:
  assumes "IsValid_Tag Chan"
    and "x \<in> set (invocations (fst (broadcast_from alive Chan ST P False (RequestDirectParent Chan) m1)))"
  shows "fst x \<noteq> Chan"
proof -
  from assms(2) have "(fst x, snd x) \<in> set (invocations (fst (broadcast_from alive Chan ST P False
                        (butlast Chan) m1)))"
    by (simp add: RequestDirectParent_def)
  from broadcast_from_invocations_sound [OF this]
  have "length (fst x) \<le> length (butlast Chan)" by (auto dest: visited_tags_shorter)
  moreover have "length (butlast Chan) < length Chan"
    using assms(1) by (simp add: IsValid_Tag_def)
  ultimately show ?thesis by auto
qed

lemma presence_invariant_empty: "presence_invariant Map.empty"
  by (simp add: presence_invariant_alt)

lemma handle_ids_ok_empty: "handle_ids_ok Map.empty"
  by (simp add: handle_ids_ok_def)

lemma scenario_map_presence: "presence_invariant scenario_map"
  by (simp add: presence_invariant_alt scenario_map_lookup split: if_splits)

lemma scenario_map_ids_ok: "handle_ids_ok scenario_map"
  by (auto simp: handle_ids_ok_def scenario_map_lookup list_ids_ok_def L1_def L2_def L3_def
      split: if_splits)

lemma Unregister_Internal_noop:
  assumes "presence_invariant m" and "HId \<notin> HandleId ` set (snapshot m Chan)"
  shows "UnregisterListener_Internal Chan HId m = m"
proof (cases "m Chan")
  case None
  then show ?thesis by (simp add: UnregisterListener_Internal_def)
next
  case (Some ll)
  with assms(2) have "IndexOfHandleId HId (Listeners ll) = None"
    by (simp add: IndexOfHandleId_None snapshot_def)
  moreover from assms(1) Some have "Listeners ll \<noteq> []" by (simp add: presence_invariant_alt)
  moreover have "m(Chan \<mapsto> ll) = m" using Some by (rule map_upd_triv)
  ultimately show ?thesis using Some by (simp add: UnregisterListener_Internal_def)
qed

lemma Unregister_Internal_removes_id:
  assumes "handle_ids_ok m"
  shows "HId \<notin> HandleId ` set (snapshot (UnregisterListener_Internal Chan HId m) Chan)"
proof (cases "m Chan")
  case None
  then show ?thesis by (simp add: snapshot_def Unregister_Internal_lookup_same)
next
  case (Some ll)
  show ?thesis
  proof (cases "IndexOfHandleId HId (Listeners ll)")
    case None
    then have "HId \<notin> HandleId ` set (Listeners ll)" by (simp add: IndexOfHandleId_None)
    with Some None show ?thesis
      by (simp add: snapshot_def Unregister_Internal_lookup_same Let_def)
  next
    case (Some k)
    then have k: "k < length (Listeners ll)" and id: "HandleId (Listeners ll ! k) = HId"
      by (auto dest: IndexOfHandleId_Some)
    from assms \<open>m Chan = Some ll\<close> have d: "distinct (map HandleId (Listeners ll))"
      by (auto simp: handle_ids_ok_def list_ids_ok_def)
    have "set (map HandleId (RemoveAtSwap k (Listeners ll)))
            = set (map HandleId (Listeners ll)) - {map HandleId (Listeners ll) ! k}"
      using d k by (simp only: RemoveAtSwap_map) (rule RemoveAtSwap_set, simp_all)
    with k id have "HId \<notin> HandleId ` set (RemoveAtSwap k (Listeners ll))" by auto
    with Some \<open>m Chan = Some ll\<close> show ?thesis
      by (simp add: snapshot_def Unregister_Internal_lookup_same Let_def)
  qed
qed

lemma counter_of_Register:
  "counter_of (snd (RegisterListener_Internal C Cb ST Cr m)) Chan =
     (if C = Chan then counter_of m Chan + 1 else counter_of m Chan)"
  by (simp add: counter_of_def Register_lookup)

lemma Id_Register: "Id (fst (RegisterListener_Internal C Cb ST Cr m)) = counter_of m C + 1"
  by (simp add: counter_of_def Register_handle)

lemma counter_of_Unregister:
  assumes "\<not> (m Chan \<noteq> None \<and> snd (UnregisterListener Handle m) Chan = None)"
  shows "counter_of (snd (UnregisterListener Handle m)) Chan = counter_of m Chan"
proof (cases "IsValid Handle \<and> Channel Handle = Chan")
  case False
  then show ?thesis
    by (auto simp: UnregisterListener_def counter_of_def Unregister_Internal_lookup_other)
next
  case True
  with assms show ?thesis
    by (auto simp: UnregisterListener_def counter_of_def Unregister_Internal_lookup_same Let_def
        split: option.splits if_splits)
qed

lemma counter_of_nonneg: "handle_ids_ok m \<Longrightarrow> 0 \<le> sint (counter_of m Chan)"
  by (auto simp: counter_of_def handle_ids_ok_def list_ids_ok_def split: option.splits)

lemma sint_next_counter:
  assumes "\<not> HandleIdOverflows m Chan"
  shows "sint (counter_of m Chan + 1) = sint (counter_of m Chan) + 1"
proof (cases "m Chan")
  case None
  then show ?thesis by (simp add: counter_of_def)
next
  case (Some ll)
  with assms have "sint (AvailableHandleId ll) < 2147483647"
    by (auto simp: HandleIdOverflows_def intro: sint_below_max)
  with Some show ?thesis by (simp add: counter_of_def sint_succ)
qed

lemma issued_ids_increase:
  "handle_ids_ok m \<Longrightarrow> no_overflow (fst (run_callback cs m)) \<Longrightarrow> never_emptied Chan cs m \<Longrightarrow>
     sorted_wrt (<) (map sint (issued_ids Chan cs m))
     \<and> (\<forall>k\<in>set (issued_ids Chan cs m). sint (counter_of m Chan) < sint k)"
proof (induction cs arbitrary: m)
  case Nil
  show ?case by simp
next
  case (Cons c cs)
  show ?case
  proof (cases c)
    case (CallRegisterListener C Cb StructType Criteria)
    let ?m1 = "snd (RegisterListener_Internal C Cb StructType Criteria m)"
    from Cons(3) CallRegisterListener
    have no: "\<not> HandleIdOverflows m C" and no': "no_overflow (fst (run_callback cs ?m1))"
      by (auto simp: Let_def split_beta split: if_splits)
    from Cons(2) no have ok: "handle_ids_ok ?m1" by (rule Register_ids_ok)
    from Cons(4) CallRegisterListener have ne: "never_emptied Chan cs ?m1" by simp
    from Cons(1) [OF ok no' ne]
    have IH: "sorted_wrt (<) (map sint (issued_ids Chan cs ?m1))"
      "\<forall>k\<in>set (issued_ids Chan cs ?m1). sint (counter_of ?m1 Chan) < sint k"
      by simp_all
    show ?thesis
    proof (cases "C = Chan")
      case False
      with IH CallRegisterListener show ?thesis by (simp add: split_beta counter_of_Register)
    next
      case True
      with no have s: "sint (counter_of m Chan + 1) = sint (counter_of m Chan) + 1"
        by (simp add: sint_next_counter)
      with IH True CallRegisterListener show ?thesis
        by (auto simp: split_beta counter_of_Register Id_Register)
    qed
  next
    case (CallUnregisterListener Handle)
    let ?m1 = "snd (UnregisterListener Handle m)"
    from Cons(2) have ok: "handle_ids_ok ?m1" by (rule Unregister_ids_ok)
    from Cons(3) CallUnregisterListener have no': "no_overflow (fst (run_callback cs ?m1))"
      by (simp add: split_beta)
    from Cons(4) CallUnregisterListener
    have keep: "\<not> (m Chan \<noteq> None \<and> ?m1 Chan = None)" and ne: "never_emptied Chan cs ?m1"
      by simp_all
    from keep have c: "counter_of ?m1 Chan = counter_of m Chan" by (rule counter_of_Unregister)
    from Cons(1) [OF ok no' ne] c CallUnregisterListener show ?thesis by simp
  qed
qed

lemma registrations_never_empty:
  "list_all (registers_on Chan) cs \<Longrightarrow> never_emptied Chan cs m"
proof (induction cs arbitrary: m)
  case (Cons c cs)
  then show ?case by (cases c) simp_all
qed simp

lemma registrations_all_issue:
  "list_all (registers_on Chan) cs \<Longrightarrow> length (issued_ids Chan cs m) = length cs"
proof (induction cs arbitrary: m)
  case (Cons c cs)
  then show ?case by (cases c) (simp_all add: split_beta)
qed simp

lemma strict_sorted_distinct_sint:
  "sorted_wrt (<) (map sint (ks :: 32 word list)) \<Longrightarrow> distinct ks"
proof (induction ks)
  case (Cons k ks)
  then show ?case by auto
qed simp

lemma deliver_at_tags_nobody:
  "\<forall>T\<in>set Ts. m T = None \<Longrightarrow> deliver_at_tags alive Chan ST P b Ts m = ([], m)"
  by (induction Ts arbitrary: b) (simp_all add: deliver_at_tag_def)

lemma visited_tags_length: "length (visited_tags Tag) = length Tag"
  by (induction Tag rule: rev_induct) simp_all

lemma visited_tags_hd: "Tag \<noteq> [] \<Longrightarrow> hd (visited_tags Tag) = Tag"
  by (simp add: visited_tags_valid)

lemma distinct_count_le_1: "distinct xs \<Longrightarrow> count_list xs x \<le> 1"
  by (induction xs) (auto simp: count_list_0_iff)

lemma visited_tags_example: "visited_tags [''Game'', ''Death''] = [[''Game'', ''Death''], [''Game'']]"
  by (simp add: visited_tags_valid)

lemma reachable_invariants: "reachable m \<Longrightarrow> presence_invariant m \<and> handle_ids_ok m"
proof (induction rule: reachable.induct)
  case initial
  show ?case by (simp add: presence_invariant_empty handle_ids_ok_empty)
next
  case (registered m Chan Cb StructType Criteria)
  then show ?case by (simp add: Register_presence Register_ids_ok)
next
  case (unregistered m Handle)
  then show ?case by (simp add: Unregister_presence Unregister_ids_ok)
next
  case (broadcast m alive Chan StructType Payload)
  then show ?case
    by (simp add: BroadcastGameplayMessage_Internal_def broadcast_from_presence
        broadcast_from_ids_ok)
next
  case (deinitialized m)
  show ?case by (simp add: Deinitialize_def presence_invariant_empty handle_ids_ok_empty)
qed

section \<open>The claims\<close>

text \<open>
  C1. Whenever a broadcast on channel \<open>Chan\<close> invokes the callback of an entry read from the
  list of level \<open>Tag\<close>, that level is \<open>Chan\<close> itself or the entry is registered with
  \<open>PartialMatch\<close>, and \<open>Tag\<close> is \<open>Chan\<close> or one of its ancestors. So an
  \<open>ExactMatch\<close> entry on a strict ancestor is never invoked, and neither is an entry on a
  strict descendant of \<open>Chan\<close>.
\<close>

theorem broadcast_delivers_exact_or_partial_only:
  assumes "CallbackInvoked Tag L Chan' ST' P'
             \<in> set (fst (BroadcastGameplayMessage_Internal alive Chan ST P m))"
  shows "(Tag = Chan \<or> MatchCriteria L = PartialMatch)
         \<and> Tag \<noteq> [] \<and> prefix Tag Chan \<and> \<not> strict_prefix Chan Tag"
proof -
  from assms have "(Tag, L) \<in> set (invocations (fst (broadcast_from alive Chan ST P True Chan m)))"
    unfolding BroadcastGameplayMessage_Internal_def by (rule invoked_in_invocations)
  from broadcast_from_invocations_sound [OF this]
  show ?thesis by (auto simp: set_visited_tags)
qed

theorem broadcast_delivers_exact_or_partial_only_witness:
  "CallbackInvoked [''Game''] L2 [''Game'', ''Death''] Death 7
     \<in> set (fst (BroadcastGameplayMessage_Internal all_alive [''Game'', ''Death''] Death 7 scenario_map))
   \<and> ([''Game''] = [''Game'', ''Death''] \<or> MatchCriteria L2 = PartialMatch)
   \<and> [''Game''] \<noteq> [] \<and> prefix [''Game''] [''Game'', ''Death'']
   \<and> \<not> strict_prefix [''Game'', ''Death''] [''Game'']"
proof -
  have h: "CallbackInvoked [''Game''] L2 [''Game'', ''Death''] Death 7
     \<in> set (fst (BroadcastGameplayMessage_Internal all_alive [''Game'', ''Death''] Death 7 scenario_map))"
    by (simp add: scenario_broadcast)
  from broadcast_delivers_exact_or_partial_only [OF h] h show ?thesis by simp
qed

text \<open>
  C2. For an eligible entry whose struct type has not gone invalid: if the entry has no
  expected type, or the broadcast type is the expected type or a child of it, the callback is
  invoked with the channel, the broadcast type and the payload; otherwise the callback is not
  invoked, one type-mismatch error naming the channel, the broadcast type, the level and the
  expected type is logged, the registry stays as it is, and the broadcast goes on with the
  remaining listeners of the level and then with the ancestor levels.
\<close>

theorem broadcast_type_gate:
  assumes "bOnInitialTag \<or> MatchCriteria L = PartialMatch"
    and "\<not> (bHasValidType L \<and> \<not> Weak_IsValid alive (GameplayMessageStructType L))"
  shows "(\<not> bHasValidType L \<or> GameplayMessageStructType L = Some ST
            \<or> IsChildOf ST (GameplayMessageStructType L) \<longrightarrow>
          deliver_to_listener alive Chan ST P bOnInitialTag Tag L m =
            (CallbackInvoked Tag L Chan ST P # fst (run_callback (Callback L) m),
             snd (run_callback (Callback L) m)))
       \<and> (bHasValidType L \<and> \<not> IsChildOf ST (GameplayMessageStructType L) \<longrightarrow>
          deliver_to_listener alive Chan ST P bOnInitialTag Tag L m =
            ([ErrorStructTypeMismatch Chan ST Tag (GameplayMessageStructType L)], m)
          \<and> deliver_to_listeners alive Chan ST P bOnInitialTag Tag (L # Ls) m =
            (ErrorStructTypeMismatch Chan ST Tag (GameplayMessageStructType L)
               # fst (deliver_to_listeners alive Chan ST P bOnInitialTag Tag Ls m),
             snd (deliver_to_listeners alive Chan ST P bOnInitialTag Tag Ls m))
          \<and> (IsValid_Tag Tag \<and> snapshot m Tag = L # Ls \<longrightarrow>
             broadcast_from alive Chan ST P bOnInitialTag Tag m =
               (ErrorStructTypeMismatch Chan ST Tag (GameplayMessageStructType L)
                  # fst (deliver_to_listeners alive Chan ST P bOnInitialTag Tag Ls m)
                  @ fst (broadcast_from alive Chan ST P False (RequestDirectParent Tag)
                           (snd (deliver_to_listeners alive Chan ST P bOnInitialTag Tag Ls m))),
                snd (broadcast_from alive Chan ST P False (RequestDirectParent Tag)
                           (snd (deliver_to_listeners alive Chan ST P bOnInitialTag Tag Ls m))))))"
proof -
  have get: "bHasValidType L \<Longrightarrow>
      Weak_Get alive (GameplayMessageStructType L) = GameplayMessageStructType L"
    using assms(2) by (simp add: Weak_Get_def)
  have A: "deliver_to_listener alive Chan ST P bOnInitialTag Tag L m =
            (CallbackInvoked Tag L Chan ST P # fst (run_callback (Callback L) m),
             snd (run_callback (Callback L) m))"
    if "\<not> bHasValidType L \<or> GameplayMessageStructType L = Some ST
            \<or> IsChildOf ST (GameplayMessageStructType L)"
  proof -
    from that have "\<not> bHasValidType L \<or> IsChildOf ST (GameplayMessageStructType L)"
      using IsChildOf_refl [of ST] by auto
    then show ?thesis using assms get
      by (cases "bHasValidType L") (simp_all add: deliver_to_listener_def split_beta)
  qed
  have B: "deliver_to_listener alive Chan ST P bOnInitialTag Tag L m =
            ([ErrorStructTypeMismatch Chan ST Tag (GameplayMessageStructType L)], m)"
    if "bHasValidType L \<and> \<not> IsChildOf ST (GameplayMessageStructType L)"
    using that assms get by (simp add: deliver_to_listener_def)
  have C: "deliver_to_listeners alive Chan ST P bOnInitialTag Tag (L # Ls) m =
            (ErrorStructTypeMismatch Chan ST Tag (GameplayMessageStructType L)
               # fst (deliver_to_listeners alive Chan ST P bOnInitialTag Tag Ls m),
             snd (deliver_to_listeners alive Chan ST P bOnInitialTag Tag Ls m))"
    if "bHasValidType L \<and> \<not> IsChildOf ST (GameplayMessageStructType L)"
    by (simp add: B [OF that] split_beta)
  have D: "broadcast_from alive Chan ST P bOnInitialTag Tag m =
               (ErrorStructTypeMismatch Chan ST Tag (GameplayMessageStructType L)
                  # fst (deliver_to_listeners alive Chan ST P bOnInitialTag Tag Ls m)
                  @ fst (broadcast_from alive Chan ST P False (RequestDirectParent Tag)
                           (snd (deliver_to_listeners alive Chan ST P bOnInitialTag Tag Ls m))),
                snd (broadcast_from alive Chan ST P False (RequestDirectParent Tag)
                           (snd (deliver_to_listeners alive Chan ST P bOnInitialTag Tag Ls m))))"
    if "bHasValidType L \<and> \<not> IsChildOf ST (GameplayMessageStructType L)"
      and "IsValid_Tag Tag \<and> snapshot m Tag = L # Ls"
  proof -
    from that(2) obtain ll where ll: "m Tag = Some ll" "Listeners ll = L # Ls"
      by (auto simp: snapshot_def split: option.splits)
    have "deliver_at_tag alive Chan ST P bOnInitialTag Tag m =
            deliver_to_listeners alive Chan ST P bOnInitialTag Tag (L # Ls) m"
      using ll by (simp add: deliver_at_tag_def)
    with that(2) C [OF that(1)] show ?thesis
      by (subst broadcast_from.simps) (simp add: split_beta)
  qed
  from A B C D show ?thesis by blast
qed

theorem broadcast_type_gate_witness:
  "(True \<or> MatchCriteria L3 = PartialMatch)
   \<and> \<not> (bHasValidType L3 \<and> \<not> Weak_IsValid all_alive (GameplayMessageStructType L3))
   \<and> deliver_to_listener all_alive [''Game'', ''Death''] Death 7 True [''Game'', ''Death''] L1 scenario_map
       = ([CallbackInvoked [''Game'', ''Death''] L1 [''Game'', ''Death''] Death 7], scenario_map)
   \<and> deliver_to_listener all_alive [''Game'', ''Death''] Death 7 True [''Game'', ''Death''] L3 scenario_map
       = ([ErrorStructTypeMismatch [''Game'', ''Death''] Death [''Game'', ''Death''] (Some Kill)],
          scenario_map)"
proof -
  have e1: "True \<or> MatchCriteria L1 = PartialMatch" by simp
  have s1: "\<not> (bHasValidType L1 \<and> \<not> Weak_IsValid all_alive (GameplayMessageStructType L1))"
    by (simp add: L1_def Weak_IsValid_def all_alive_def)
  have e3: "True \<or> MatchCriteria L3 = PartialMatch" by simp
  have s3: "\<not> (bHasValidType L3 \<and> \<not> Weak_IsValid all_alive (GameplayMessageStructType L3))"
    by (simp add: L3_def Weak_IsValid_def all_alive_def)
  have c1: "GameplayMessageStructType L1 = Some Death" by (simp add: L1_def)
  have c3: "bHasValidType L3 \<and> \<not> IsChildOf Death (GameplayMessageStructType L3)"
    by (simp add: L3_def Death_def Kill_def)
  have k3: "GameplayMessageStructType L3 = Some Kill" by (simp add: L3_def)
  have cb: "Callback L1 = []" by (simp add: L1_def)
  from broadcast_type_gate [OF e1 s1, of Death "[''Game'', ''Death'']" 7 "[''Game'', ''Death'']" scenario_map]
       broadcast_type_gate [OF e3 s3, of Death "[''Game'', ''Death'']" 7 "[''Game'', ''Death'']" scenario_map]
       c1 c3 k3 cb s3
  show ?thesis by simp
qed

text \<open>
  C3, as stated, fails: the array of a level is copied when the outer loop reaches that
  level, so a listener that a callback of the initial level registers on the parent channel
  is in the parent's copy and is invoked by the same broadcast. Here the callback of the
  listener on \<open>A.B\<close> registers \<open>Lnew\<close> on \<open>A\<close>, which had no list before.
\<close>

theorem ancestor_listener_registered_in_flight_is_invoked:
  "reentrant_map [''A''] = None
   \<and> invocations (fst (BroadcastGameplayMessage_Internal all_alive [''A'', ''B''] Death 7
        reentrant_map)) = [([''A'', ''B''], La), ([''A''], Lnew)]"
  by (simp add: BroadcastGameplayMessage_Internal_def broadcast_from_valid deliver_at_tag_def
      reentrant_map_lookup deliver_to_listener_def La_def Lnew_def Weak_IsValid_def
      Weak_Get_def all_alive_def Death_def reentrant_callback_def Register_lookup
      HandleIdOverflows_def split_beta)

text \<open>
  C3, amended. The callbacks invoked at a level are the deliverable entries of the copied
  array, each once and in the order of the copy, whatever the callbacks do to the registry
  meanwhile; the copy is the level's list at the moment the level is reached. In
  particular the invocations at the channel of the broadcast itself are the deliverable
  entries of that channel's list as it was before the broadcast: a listener registered on
  that channel during the broadcast is not invoked, and one unregistered during it still is.
\<close>

theorem level_snapshot_decides_invocations:
  "invocations (fst (deliver_to_listeners alive Chan ST P b Tag Ls m))
     = map (Pair Tag) (filter (is_delivered alive ST b) Ls)
   \<and> invocations (fst (deliver_at_tag alive Chan ST P b Tag m))
     = map (Pair Tag) (filter (is_delivered alive ST b) (snapshot m Tag))
   \<and> (IsValid_Tag Chan \<longrightarrow>
        filter (\<lambda>x. fst x = Chan)
          (invocations (fst (BroadcastGameplayMessage_Internal alive Chan ST P m)))
        = map (Pair Chan) (filter (is_delivered alive ST True) (snapshot m Chan)))"
proof -
  have "filter (\<lambda>x. fst x = Chan)
          (invocations (fst (BroadcastGameplayMessage_Internal alive Chan ST P m)))
        = map (Pair Chan) (filter (is_delivered alive ST True) (snapshot m Chan))"
    if v: "IsValid_Tag Chan"
  proof -
    let ?here = "map (Pair Chan) (filter (is_delivered alive ST True) (snapshot m Chan))"
    let ?up = "invocations (fst (broadcast_from alive Chan ST P False (RequestDirectParent Chan)
                 (snd (deliver_at_tag alive Chan ST P True Chan m))))"
    have 1: "filter (\<lambda>x. fst x = Chan) ?here = ?here" by (simp add: filter_map comp_def)
    have 2: "filter (\<lambda>x. fst x = Chan) ?up = []"
      using broadcast_invocations_above [OF v] by (simp add: filter_empty_conv)
    show ?thesis by (simp only: broadcast_invocations_initial [OF v] filter_append 1 2 append_Nil2)
  qed
  then show ?thesis
    by (simp add: deliver_to_listeners_invocations deliver_at_tag_invocations)
qed

theorem level_snapshot_decides_invocations_witness:
  "IsValid_Tag [''A'', ''B'']
   \<and> filter (\<lambda>x. fst x = [''A'', ''B''])
        (invocations (fst (BroadcastGameplayMessage_Internal all_alive [''A'', ''B''] Death 7
           self_replacing_map)))
      = [([''A'', ''B''], Lself)]
   \<and> map HandleId (snapshot (snd (BroadcastGameplayMessage_Internal all_alive [''A'', ''B''] Death 7
        self_replacing_map)) [''A'', ''B'']) = [2]"
proof -
  have v: "IsValid_Tag [''A'', ''B'']" by (simp add: IsValid_Tag_def)
  have d: "is_delivered all_alive Death True Lself"
    by (simp add: is_delivered_def Lself_def Weak_IsValid_def Weak_Get_def all_alive_def Death_def)
  have s: "snapshot self_replacing_map [''A'', ''B''] = [Lself]"
    by (simp add: snapshot_def self_replacing_map_lookup)
  have after: "map HandleId (snapshot (snd (BroadcastGameplayMessage_Internal all_alive
                 [''A'', ''B''] Death 7 self_replacing_map)) [''A'', ''B'']) = [2]"
    by (simp add: BroadcastGameplayMessage_Internal_def broadcast_from_valid deliver_at_tag_def
      self_replacing_map_lookup deliver_to_listener_def Lself_def Weak_IsValid_def
      Weak_Get_def all_alive_def Death_def self_replacing_callback_def Register_lookup
      HandleIdOverflows_def split_beta UnregisterListener_def IsValid_def snapshot_def
      Unregister_Internal_lookup_same Unregister_Internal_lookup_other RemoveAtSwap_def)
  from level_snapshot_decides_invocations [of all_alive "[''A'', ''B'']" Death 7 True "[''A'', ''B'']" "[]" self_replacing_map]
    v d s after
  show ?thesis by simp
qed

text \<open>
  C4, as stated, fails: the counter lives in the channel's list, and the list is removed from
  the map with its last entry. Register on \<open>A\<close> (identifier 1), unregister that handle
  (the channel is removed), register on \<open>A\<close> again: the identifier is 1 again.
\<close>

theorem handle_id_reissued_after_list_emptied:
  "Id (fst (RegisterListener_Internal [''A''] [] (Some Death) ExactMatch Map.empty)) = 1
   \<and> snd (UnregisterListener (fst (RegisterListener_Internal [''A''] [] (Some Death) ExactMatch Map.empty))
           (snd (RegisterListener_Internal [''A''] [] (Some Death) ExactMatch Map.empty))) [''A''] = None
   \<and> Id (fst (RegisterListener_Internal [''A''] [] (Some Death) PartialMatch
        (snd (UnregisterListener (fst (RegisterListener_Internal [''A''] [] (Some Death) ExactMatch Map.empty))
           (snd (RegisterListener_Internal [''A''] [] (Some Death) ExactMatch Map.empty)))))) = 1"
  by (simp add: Register_handle Register_lookup UnregisterListener_def IsValid_def
      Unregister_Internal_lookup_same RemoveAtSwap_def)

text \<open>
  C4, amended. Take any sequence of registrations and unregistrations, run from a registry
  whose identifiers are in order, in which no identifier overflows. As long as no
  unregistration removes the list of the channel, the identifiers returned on the channel
  are strictly increasing (so pairwise distinct), each above the channel's counter before
  the sequence and so above every identifier the list holds. A sequence of registrations
  on the channel alone never removes its list and returns one identifier per call. When
  the last entry is unregistered the list is removed, and the next registration on the
  channel returns 1.
\<close>

theorem handle_ids_increase_while_list_exists:
  assumes "handle_ids_ok m" and "no_overflow (fst (run_callback cs m))"
  shows "(never_emptied Chan cs m \<longrightarrow>
            sorted_wrt (<) (map sint (issued_ids Chan cs m))
            \<and> distinct (issued_ids Chan cs m)
            \<and> (\<forall>k\<in>set (issued_ids Chan cs m). sint (counter_of m Chan) < sint k)
            \<and> (\<forall>L\<in>set (snapshot m Chan). \<forall>k\<in>set (issued_ids Chan cs m).
                  sint (HandleId L) < sint k))
       \<and> (list_all (registers_on Chan) cs \<longrightarrow>
            never_emptied Chan cs m \<and> length (issued_ids Chan cs m) = length cs)
       \<and> (snapshot m Chan = [L] \<longrightarrow>
            UnregisterListener_Internal Chan (HandleId L) m Chan = None
            \<and> Id (fst (RegisterListener_Internal Chan Cb StructType Criteria
                        (UnregisterListener_Internal Chan (HandleId L) m))) = 1)"
proof -
  have A: "sorted_wrt (<) (map sint (issued_ids Chan cs m))
            \<and> distinct (issued_ids Chan cs m)
            \<and> (\<forall>k\<in>set (issued_ids Chan cs m). sint (counter_of m Chan) < sint k)
            \<and> (\<forall>L\<in>set (snapshot m Chan). \<forall>k\<in>set (issued_ids Chan cs m).
                  sint (HandleId L) < sint k)" if ne: "never_emptied Chan cs m"
  proof -
    from issued_ids_increase [OF assms ne]
    have s: "sorted_wrt (<) (map sint (issued_ids Chan cs m))"
      and a: "\<forall>k\<in>set (issued_ids Chan cs m). sint (counter_of m Chan) < sint k" by simp_all
    have "\<forall>L\<in>set (snapshot m Chan). sint (HandleId L) \<le> sint (counter_of m Chan)"
      using assms(1)
      by (auto simp: snapshot_def counter_of_def handle_ids_ok_def list_ids_ok_def list_all_iff
          split: option.splits)
    with a have "\<forall>L\<in>set (snapshot m Chan). \<forall>k\<in>set (issued_ids Chan cs m).
                  sint (HandleId L) < sint k" by fastforce
    with s a show ?thesis by (simp add: strict_sorted_distinct_sint)
  qed
  have C: "UnregisterListener_Internal Chan (HandleId L) m Chan = None
            \<and> Id (fst (RegisterListener_Internal Chan Cb StructType Criteria
                        (UnregisterListener_Internal Chan (HandleId L) m))) = 1"
    if "snapshot m Chan = [L]"
  proof -
    from that have "UnregisterListener_Internal Chan (HandleId L) m Chan = None"
      by (auto simp: snapshot_def Unregister_Internal_lookup_same RemoveAtSwap_def
          split: option.splits)
    then show ?thesis by (simp add: Register_handle)
  qed
  from A C show ?thesis
    by (simp add: registrations_never_empty registrations_all_issue)
qed

theorem handle_ids_increase_while_list_exists_witness:
  "handle_ids_ok scenario_map \<and> no_overflow (fst (run_callback three_registrations scenario_map))
   \<and> list_all (registers_on [''Game'']) three_registrations
   \<and> never_emptied [''Game''] three_registrations scenario_map
   \<and> issued_ids [''Game''] three_registrations scenario_map = [2, 3, 4]
   \<and> sorted_wrt (<) (map sint (issued_ids [''Game''] three_registrations scenario_map))
   \<and> distinct (issued_ids [''Game''] three_registrations scenario_map)
   \<and> snapshot scenario_map [''Game''] = [L2]
   \<and> Id (fst (RegisterListener_Internal [''Game''] [] None ExactMatch
              (UnregisterListener_Internal [''Game''] (HandleId L2) scenario_map))) = 1"
proof -
  have n: "no_overflow (fst (run_callback three_registrations scenario_map))"
    by (simp add: three_registrations_def HandleIdOverflows_def Register_lookup
        scenario_map_lookup split_beta)
  have r: "list_all (registers_on [''Game'']) three_registrations"
    by (simp add: three_registrations_def)
  have i: "issued_ids [''Game''] three_registrations scenario_map = [2, 3, 4]"
    by (simp add: three_registrations_def Register_handle Register_lookup scenario_map_lookup
        split_beta)
  have s: "snapshot scenario_map [''Game''] = [L2]" by (simp add: snapshot_def scenario_map_lookup)
  from handle_ids_increase_while_list_exists [OF scenario_map_ids_ok n, of "[''Game'']" L2 "[]" None ExactMatch]
    n r i s scenario_map_ids_ok
  show ?thesis by simp
qed

text \<open>
  C5 does not hold of the code: the entry whose struct type has gone invalid is unregistered
  with the channel of the broadcast, not with the level whose list it is stored in. Evaluated on a broadcast on \<open>A.B\<close> with
  the stale entry on \<open>A\<close>: the warning is logged, the stale entry is still on \<open>A\<close>
  afterwards, and the entry of \<open>A.B\<close> that has the same identifier is removed instead.
\<close>

theorem stale_ancestor_entry_survives_broadcast:
  "fst (BroadcastGameplayMessage_Internal kill_collected [''A'', ''B''] Death 7 stale_map) =
     [CallbackInvoked [''A'', ''B''] L1 [''A'', ''B''] Death 7,
      WarningStructTypeGoneInvalid [''A'', ''B'']]
   \<and> snapshot (snd (BroadcastGameplayMessage_Internal kill_collected [''A'', ''B''] Death 7
        stale_map)) [''A''] = [Lstale]
   \<and> snd (BroadcastGameplayMessage_Internal kill_collected [''A'', ''B''] Death 7 stale_map)
        [''A'', ''B''] = None"
  by (simp add: BroadcastGameplayMessage_Internal_def broadcast_from_valid deliver_at_tag_def
      stale_map_lookup deliver_to_listener_def L1_def Lstale_def Weak_IsValid_def
      Weak_Get_def kill_collected_def Death_def Kill_def split_beta snapshot_def
      Unregister_Internal_lookup_same Unregister_Internal_lookup_other RemoveAtSwap_def)

text \<open>
  C6. The registry invariant (a channel has a list exactly if it has a listener) holds for
  the empty registry and is kept by registration, by unregistration and by broadcast;
  registration leaves the channel with a non-empty list, and unregistering the only
  entry of a channel removes the channel from the map.
\<close>

theorem presence_invariant_preserved:
  assumes "presence_invariant m"
  shows "presence_invariant Map.empty
       \<and> presence_invariant (snd (RegisterListener_Internal Chan Cb StructType Criteria m))
       \<and> snapshot (snd (RegisterListener_Internal Chan Cb StructType Criteria m)) Chan \<noteq> []
       \<and> presence_invariant (UnregisterListener_Internal Chan HId m)
       \<and> presence_invariant (snd (UnregisterListener Handle m))
       \<and> presence_invariant (snd (BroadcastGameplayMessage_Internal alive Chan ST P m))
       \<and> (snapshot m Chan = [L] \<longrightarrow> UnregisterListener_Internal Chan (HandleId L) m Chan = None)"
proof -
  have "UnregisterListener_Internal Chan (HandleId L) m Chan = None" if "snapshot m Chan = [L]"
    using that
    by (auto simp: snapshot_def Unregister_Internal_lookup_same RemoveAtSwap_def
        split: option.splits)
  moreover have "snapshot (snd (RegisterListener_Internal Chan Cb StructType Criteria m)) Chan \<noteq> []"
    by (simp add: snapshot_def Register_lookup)
  ultimately show ?thesis
    using assms
    by (simp add: presence_invariant_empty Register_presence Unregister_Internal_presence
        Unregister_presence BroadcastGameplayMessage_Internal_def broadcast_from_presence)
qed

theorem presence_invariant_preserved_witness:
  "presence_invariant scenario_map
   \<and> presence_invariant (snd (RegisterListener_Internal [''Game''] [] None ExactMatch scenario_map))
   \<and> snapshot (snd (RegisterListener_Internal [''Game''] [] None ExactMatch scenario_map)) [''Game''] \<noteq> []
   \<and> presence_invariant (UnregisterListener_Internal [''Game''] 1 scenario_map)
   \<and> presence_invariant (snd (UnregisterListener \<lparr>Channel = [''Game''], Id = 1\<rparr> scenario_map))
   \<and> presence_invariant (snd (BroadcastGameplayMessage_Internal all_alive [''Game''] Death 7 scenario_map))
   \<and> snapshot scenario_map [''Game''] = [L2]
   \<and> UnregisterListener_Internal [''Game''] 1 scenario_map [''Game''] = None"
proof -
  have s: "snapshot scenario_map [''Game''] = [L2]" by (simp add: snapshot_def scenario_map_lookup)
  have h: "HandleId L2 = 1" by (simp add: L2_def)
  from presence_invariant_preserved [OF scenario_map_presence, of "[''Game'']" "[]" None ExactMatch 1
      "\<lparr>Channel = [''Game''], Id = 1\<rparr>" all_alive Death 7 L2] s h scenario_map_presence
  show ?thesis by simp
qed

text \<open>
  C7. Unregistration always returns. With an invalid handle (the default handle is one) it
  logs a warning and leaves the registry as it is; with a valid handle that matches no
  entry it logs nothing and leaves the registry as it is; and unregistering a valid handle
  a second time logs nothing and changes nothing.
\<close>

theorem unregister_total_and_idempotent:
  assumes "presence_invariant m" and "handle_ids_ok m"
  shows "(\<not> IsValid Handle \<longrightarrow> UnregisterListener Handle m = ([WarningInvalidHandle], m))
       \<and> UnregisterListener DefaultHandle m = ([WarningInvalidHandle], m)
       \<and> (IsValid Handle \<and> Id Handle \<notin> HandleId ` set (snapshot m (Channel Handle)) \<longrightarrow>
            UnregisterListener Handle m = ([], m))
       \<and> (IsValid Handle \<longrightarrow>
            UnregisterListener Handle (snd (UnregisterListener Handle m))
              = ([], snd (UnregisterListener Handle m)))"
proof -
  have A: "UnregisterListener Handle m = ([], m)"
    if "IsValid Handle \<and> Id Handle \<notin> HandleId ` set (snapshot m (Channel Handle))"
    using that assms(1) by (simp add: UnregisterListener_def Unregister_Internal_noop)
  have B: "UnregisterListener Handle (snd (UnregisterListener Handle m))
              = ([], snd (UnregisterListener Handle m))" if v: "IsValid Handle"
  proof -
    let ?m' = "UnregisterListener_Internal (Channel Handle) (Id Handle) m"
    have "presence_invariant ?m'" using assms(1) by (rule Unregister_Internal_presence)
    moreover have "Id Handle \<notin> HandleId ` set (snapshot ?m' (Channel Handle))"
      using assms(2) by (rule Unregister_Internal_removes_id)
    ultimately have "UnregisterListener_Internal (Channel Handle) (Id Handle) ?m' = ?m'"
      by (rule Unregister_Internal_noop)
    with v show ?thesis by (simp add: UnregisterListener_def)
  qed
  from A B show ?thesis by (simp add: UnregisterListener_def IsValid_def DefaultHandle_def)
qed

theorem unregister_total_and_idempotent_witness:
  "presence_invariant scenario_map \<and> handle_ids_ok scenario_map
   \<and> UnregisterListener DefaultHandle scenario_map = ([WarningInvalidHandle], scenario_map)
   \<and> IsValid \<lparr>Channel = [''Game''], Id = 5\<rparr>
   \<and> 5 \<notin> HandleId ` set (snapshot scenario_map [''Game''])
   \<and> UnregisterListener \<lparr>Channel = [''Game''], Id = 5\<rparr> scenario_map = ([], scenario_map)
   \<and> IsValid \<lparr>Channel = [''Game''], Id = 1\<rparr>
   \<and> snd (UnregisterListener \<lparr>Channel = [''Game''], Id = 1\<rparr> scenario_map) [''Game''] = None
   \<and> UnregisterListener \<lparr>Channel = [''Game''], Id = 1\<rparr>
        (snd (UnregisterListener \<lparr>Channel = [''Game''], Id = 1\<rparr> scenario_map))
      = ([], snd (UnregisterListener \<lparr>Channel = [''Game''], Id = 1\<rparr> scenario_map))"
proof -
  have v5: "IsValid \<lparr>Channel = [''Game''], Id = 5\<rparr>" by (simp add: IsValid_def)
  have v1: "IsValid \<lparr>Channel = [''Game''], Id = 1\<rparr>" by (simp add: IsValid_def)
  have n5: "5 \<notin> HandleId ` set (snapshot scenario_map [''Game''])"
    by (simp add: snapshot_def scenario_map_lookup L2_def)
  have gone: "snd (UnregisterListener \<lparr>Channel = [''Game''], Id = 1\<rparr> scenario_map) [''Game''] = None"
    by (simp add: UnregisterListener_def IsValid_def Unregister_Internal_lookup_same
        scenario_map_lookup L2_def RemoveAtSwap_def)
  from unregister_total_and_idempotent [OF scenario_map_presence scenario_map_ids_ok, of "\<lparr>Channel = [''Game''], Id = 5\<rparr>"]
       unregister_total_and_idempotent [OF scenario_map_presence scenario_map_ids_ok, of "\<lparr>Channel = [''Game''], Id = 1\<rparr>"]
       v5 v1 n5 gone scenario_map_presence scenario_map_ids_ok
  show ?thesis by simp
qed

text \<open>
  C8. A broadcast is one round per visited tag, the visited tags being the channel and its
  ancestors, each once, nearest first and the root last. The levels of the invoked
  callbacks never get deeper along the run, so every invocation at the channel itself comes
  before every invocation at a strict ancestor. If no visited tag has a list, the broadcast
  logs nothing and leaves the registry as it is.
\<close>

theorem broadcast_visits_levels_in_order:
  "BroadcastGameplayMessage_Internal alive Chan ST P m
     = deliver_at_tags alive Chan ST P True (visited_tags Chan) m
   \<and> distinct (visited_tags Chan)
   \<and> set (visited_tags Chan) = {T. T \<noteq> [] \<and> prefix T Chan}
   \<and> sorted_wrt (\<lambda>T U. strict_prefix U T) (visited_tags Chan)
   \<and> (IsValid_Tag Chan \<longrightarrow> hd (visited_tags Chan) = Chan)
   \<and> sorted_wrt (\<lambda>x y. prefix (fst y) (fst x))
        (invocations (fst (BroadcastGameplayMessage_Internal alive Chan ST P m)))
   \<and> (\<forall>i j. i < j
          \<and> j < length (invocations (fst (BroadcastGameplayMessage_Internal alive Chan ST P m)))
          \<and> fst (invocations (fst (BroadcastGameplayMessage_Internal alive Chan ST P m)) ! j) = Chan
        \<longrightarrow> fst (invocations (fst (BroadcastGameplayMessage_Internal alive Chan ST P m)) ! i) = Chan)
   \<and> ((\<forall>T\<in>set (visited_tags Chan). m T = None) \<longrightarrow>
        BroadcastGameplayMessage_Internal alive Chan ST P m = ([], m))"
proof -
  let ?inv = "invocations (fst (BroadcastGameplayMessage_Internal alive Chan ST P m))"
  have eq: "BroadcastGameplayMessage_Internal alive Chan ST P m
     = deliver_at_tags alive Chan ST P True (visited_tags Chan) m"
    by (simp add: BroadcastGameplayMessage_Internal_def broadcast_from_deliver_at_tags)
  have sorted: "sorted_wrt (\<lambda>x y. prefix (fst y) (fst x)) ?inv"
    unfolding BroadcastGameplayMessage_Internal_def by (rule broadcast_from_invocations_sorted)
  have first: "\<forall>i j. i < j \<and> j < length ?inv \<and> fst (?inv ! j) = Chan \<longrightarrow> fst (?inv ! i) = Chan"
  proof (intro allI impI, elim conjE)
    fix i j assume that: "i < j" "j < length ?inv" "fst (?inv ! j) = Chan"
    from sorted that(1,2) have "prefix (fst (?inv ! j)) (fst (?inv ! i))"
      unfolding sorted_wrt_iff_nth_less by blast
    with that(3) have 1: "prefix Chan (fst (?inv ! i))" by simp
    from that have "?inv ! i \<in> set ?inv" by simp
    then have "(fst (?inv ! i), snd (?inv ! i))
        \<in> set (invocations (fst (broadcast_from alive Chan ST P True Chan m)))"
      by (simp add: BroadcastGameplayMessage_Internal_def)
    from broadcast_from_invocations_sound [OF this]
    have "prefix (fst (?inv ! i)) Chan" by (simp add: set_visited_tags)
    with 1 show "fst (?inv ! i) = Chan" by (simp add: prefix_order.antisym)
  qed
  have silent: "(\<forall>T\<in>set (visited_tags Chan). m T = None) \<longrightarrow>
        BroadcastGameplayMessage_Internal alive Chan ST P m = ([], m)"
    by (simp add: eq deliver_at_tags_nobody)
  have hd: "IsValid_Tag Chan \<longrightarrow> hd (visited_tags Chan) = Chan"
    by (simp add: visited_tags_hd IsValid_Tag_def)
  from eq distinct_visited_tags [of Chan] set_visited_tags [of Chan] sorted_visited_tags [of Chan]
    hd sorted first silent
  show ?thesis by (intro conjI)
qed

theorem broadcast_visits_levels_in_order_witness:
  "IsValid_Tag [''Game'', ''Death'']
   \<and> visited_tags [''Game'', ''Death''] = [[''Game'', ''Death''], [''Game'']]
   \<and> hd (visited_tags [''Game'', ''Death'']) = [''Game'', ''Death'']
   \<and> invocations (fst (BroadcastGameplayMessage_Internal all_alive [''Game'', ''Death''] Death 7
        scenario_map)) = [([''Game'', ''Death''], L1), ([''Game''], L2)]
   \<and> sorted_wrt (\<lambda>x y. prefix (fst y) (fst x))
        (invocations (fst (BroadcastGameplayMessage_Internal all_alive [''Game'', ''Death''] Death 7
           scenario_map)))
   \<and> visited_tags [''Other'', ''Death''] = [[''Other'', ''Death''], [''Other'']]
   \<and> scenario_map [''Other'', ''Death''] = None \<and> scenario_map [''Other''] = None
   \<and> BroadcastGameplayMessage_Internal all_alive [''Other'', ''Death''] Death 7 scenario_map
       = ([], scenario_map)"
proof -
  have v: "IsValid_Tag [''Game'', ''Death'']" by (simp add: IsValid_Tag_def)
  have i: "invocations (fst (BroadcastGameplayMessage_Internal all_alive [''Game'', ''Death''] Death 7
        scenario_map)) = [([''Game'', ''Death''], L1), ([''Game''], L2)]"
    by (simp add: scenario_broadcast)
  have n: "\<forall>T\<in>set (visited_tags [''Other'', ''Death'']). scenario_map T = None"
    by (simp add: visited_tags_valid scenario_map_lookup)
  from broadcast_visits_levels_in_order [of all_alive "[''Game'', ''Death'']" Death 7 scenario_map] v
  have h: "hd (visited_tags [''Game'', ''Death'']) = [''Game'', ''Death'']"
    and s: "sorted_wrt (\<lambda>x y. prefix (fst y) (fst x))
        (invocations (fst (BroadcastGameplayMessage_Internal all_alive [''Game'', ''Death''] Death 7
           scenario_map)))"
    by blast+
  from broadcast_visits_levels_in_order [of all_alive "[''Other'', ''Death'']" Death 7 scenario_map] n
  have q: "BroadcastGameplayMessage_Internal all_alive [''Other'', ''Death''] Death 7 scenario_map
       = ([], scenario_map)"
    by blast
  have vo: "visited_tags [''Other'', ''Death''] = [[''Other'', ''Death''], [''Other'']]"
    by (simp add: visited_tags_valid)
  have o1: "scenario_map [''Other'', ''Death''] = None" and o2: "scenario_map [''Other''] = None"
    by (simp_all add: scenario_map_lookup)
  from v visited_tags_example h i s vo o1 o2 q show ?thesis by (intro conjI)
qed

text \<open>
  C9. In a registry whose identifiers are in order (as in every registry built from the
  empty one without overflow), a registration that does not overflow the counter returns a
  valid handle for the channel: its identifier is at least 1, so it is not the default
  handle; on a channel without a list it is 1.
\<close>

theorem registration_returns_valid_handle:
  assumes "handle_ids_ok m" and "\<not> HandleIdOverflows m Chan"
  shows "IsValid (fst (RegisterListener_Internal Chan Cb StructType Criteria m))
       \<and> 1 \<le> sint (Id (fst (RegisterListener_Internal Chan Cb StructType Criteria m)))
       \<and> fst (RegisterListener_Internal Chan Cb StructType Criteria m) \<noteq> DefaultHandle
       \<and> Channel (fst (RegisterListener_Internal Chan Cb StructType Criteria m)) = Chan
       \<and> (m Chan = None \<longrightarrow> Id (fst (RegisterListener_Internal Chan Cb StructType Criteria m)) = 1)"
proof -
  let ?h = "fst (RegisterListener_Internal Chan Cb StructType Criteria m)"
  have pos: "1 \<le> sint (Id ?h)"
  proof (cases "m Chan")
    case None
    then show ?thesis by (simp add: Register_handle)
  next
    case (Some ll)
    with assms have "0 \<le> sint (AvailableHandleId ll)" "sint (AvailableHandleId ll) < 2147483647"
      by (auto simp: handle_ids_ok_def list_ids_ok_def HandleIdOverflows_def intro: sint_below_max)
    with sint_succ [of "AvailableHandleId ll"] Some show ?thesis by (simp add: Register_handle)
  qed
  then have "Id ?h \<noteq> 0" by auto
  with pos show ?thesis
    by (auto simp: IsValid_def DefaultHandle_def Register_handle)
qed

theorem registration_returns_valid_handle_witness:
  "handle_ids_ok scenario_map \<and> \<not> HandleIdOverflows scenario_map [''Game'', ''Death'']
   \<and> IsValid (fst (RegisterListener_Internal [''Game'', ''Death''] [] None ExactMatch scenario_map))
   \<and> Id (fst (RegisterListener_Internal [''Game'', ''Death''] [] None ExactMatch scenario_map)) = 3"
proof -
  have n: "\<not> HandleIdOverflows scenario_map [''Game'', ''Death'']"
    by (simp add: HandleIdOverflows_def scenario_map_lookup)
  have i: "Id (fst (RegisterListener_Internal [''Game'', ''Death''] [] None ExactMatch scenario_map)) = 3"
    by (simp add: Register_handle scenario_map_lookup)
  from registration_returns_valid_handle [OF scenario_map_ids_ok n, of "[]" None ExactMatch] n i scenario_map_ids_ok
  show ?thesis by simp
qed

text \<open>
  C10. In a broadcast in which no identifier overflows, started in a registry whose
  identifiers are in order, no entry (a channel and an identifier) is invoked twice; the
  visited tags are pairwise distinct, each valid and longer than its parent.
\<close>

theorem listener_invoked_at_most_once:
  assumes "handle_ids_ok m"
    and "no_overflow (fst (BroadcastGameplayMessage_Internal alive Chan ST P m))"
  shows "distinct (map invocation_key
           (invocations (fst (BroadcastGameplayMessage_Internal alive Chan ST P m))))
       \<and> (\<forall>T L. L \<in> set (snapshot m T) \<longrightarrow>
            count_list (map invocation_key
              (invocations (fst (BroadcastGameplayMessage_Internal alive Chan ST P m))))
              (T, HandleId L) \<le> 1)
       \<and> distinct (visited_tags Chan)
       \<and> (\<forall>T\<in>set (visited_tags Chan).
            IsValid_Tag T \<and> length (RequestDirectParent T) < length T)"
proof -
  have d: "distinct (map invocation_key
           (invocations (fst (BroadcastGameplayMessage_Internal alive Chan ST P m))))"
    using assms unfolding BroadcastGameplayMessage_Internal_def
    by (rule broadcast_from_invocations_distinct)
  have "\<forall>T\<in>set (visited_tags Chan). IsValid_Tag T \<and> length (RequestDirectParent T) < length T"
    by (auto simp: set_visited_tags IsValid_Tag_def RequestDirectParent_def)
  moreover have "\<forall>T L. L \<in> set (snapshot m T) \<longrightarrow>
            count_list (map invocation_key
              (invocations (fst (BroadcastGameplayMessage_Internal alive Chan ST P m))))
              (T, HandleId L) \<le> 1"
    using distinct_count_le_1 [OF d] by blast
  ultimately show ?thesis using d distinct_visited_tags [of Chan] by blast
qed

theorem listener_invoked_at_most_once_witness:
  "handle_ids_ok scenario_map
   \<and> no_overflow (fst (BroadcastGameplayMessage_Internal all_alive [''Game'', ''Death''] Death 7
        scenario_map))
   \<and> map invocation_key (invocations (fst (BroadcastGameplayMessage_Internal all_alive
        [''Game'', ''Death''] Death 7 scenario_map))) = [([''Game'', ''Death''], 1), ([''Game''], 1)]
   \<and> distinct (map invocation_key (invocations (fst (BroadcastGameplayMessage_Internal all_alive
        [''Game'', ''Death''] Death 7 scenario_map))))"
proof -
  have n: "no_overflow (fst (BroadcastGameplayMessage_Internal all_alive [''Game'', ''Death'']
             Death 7 scenario_map))"
    by (simp add: scenario_broadcast)
  have k: "map invocation_key (invocations (fst (BroadcastGameplayMessage_Internal all_alive
        [''Game'', ''Death''] Death 7 scenario_map))) = [([''Game'', ''Death''], 1), ([''Game''], 1)]"
    by (simp add: scenario_broadcast invocation_key_def L1_def L2_def)
  from listener_invoked_at_most_once [OF scenario_map_ids_ok n] n k scenario_map_ids_ok
  show ?thesis by simp
qed


end
